theory Spec2Isabelle
  imports Main "HOL-Library.Word" "HOL-Library.Log_Nat" "HOL-Library.Multiset"
begin

unbundle bit_operations_syntax

chapter \<open>The party guessing game server: frame codec, handshake and lobby state machine\<close>

text \<open>
  The development follows \<^verbatim>\<open>src/server.js\<close> for the game (lobbies, phases, timers,
  message dispatch) and \<^verbatim>\<open>src/unnamed/part_000\<close> for the hand-written WebSocket layer
  (\<^verbatim>\<open>acceptWebSocket\<close>: handshake, \<^verbatim>\<open>ws.send\<close>, the \<^verbatim>\<open>'data'\<close> handler). The two
  files share the game functions line for line; where they differ it is said at the
  definition.
\<close>

section \<open>JavaScript values and errors\<close>

text \<open>
  An exception that nothing catches ends the Node process, so it is an outcome of its own.
  \<open>NoReturn\<close> stands for a call that never returns (\<^verbatim>\<open>generateLobbyCode\<close> retrying
  for ever).
\<close>

datatype js_error = TypeError | RangeError | NoReturn

text \<open>
  What \<^verbatim>\<open>JSON.parse\<close> can return, and \<^verbatim>\<open>undefined\<close> for a property that is absent.
  A string is the list of its code units, those that a \<open>char\<close> holds: the code units
  below 256. The server only ever tests a number for truthiness and equality, so a number
  is indexed by an integer, \<open>JNum 0\<close> being zero.
\<close>

datatype jsval =
    JUndefined
  | JNull
  | JBool bool
  | JNum int
  | JStr string
  | JArr "jsval list"
  | JObj "(string \<times> jsval) list"

fun truthy :: "jsval \<Rightarrow> bool" where
  "truthy JUndefined = False"
| "truthy JNull = False"
| "truthy (JBool b) = b"
| "truthy (JNum n) = (n \<noteq> 0)"
| "truthy (JStr s) = (s \<noteq> [])"
| "truthy (JArr xs) = True"
| "truthy (JObj kvs) = True"

text \<open>\<^verbatim>\<open>a || b\<close>.\<close>

definition js_or :: "jsval \<Rightarrow> jsval \<Rightarrow> jsval" where
  "js_or a b = (if truthy a then a else b)"

text \<open>
  \<^verbatim>\<open>msg.key\<close> for the keys the dispatcher reads (\<^verbatim>\<open>type\<close>, \<^verbatim>\<open>name\<close>, \<^verbatim>\<open>code\<close>,
  \<^verbatim>\<open>question\<close>, \<^verbatim>\<open>answer\<close>, \<^verbatim>\<open>guesses\<close>, \<^verbatim>\<open>category\<close>, \<^verbatim>\<open>answerId\<close>): reading a
  property of \<^verbatim>\<open>null\<close> throws, a primitive or an array has none of these.
\<close>

fun get_prop :: "jsval \<Rightarrow> string \<Rightarrow> js_error + jsval" where
  "get_prop JNull k = Inl TypeError"
| "get_prop JUndefined k = Inl TypeError"
| "get_prop (JObj kvs) k = Inr (case map_of kvs k of None \<Rightarrow> JUndefined | Some v \<Rightarrow> v)"
| "get_prop v k = Inr JUndefined"

text \<open>
  \<^verbatim>\<open>x.slice(0, n)\<close>: a string and an array have the method; on any other value
  \<^verbatim>\<open>x.slice\<close> is not a function and the call throws.
\<close>

fun slice0 :: "nat \<Rightarrow> jsval \<Rightarrow> js_error + jsval" where
  "slice0 n (JStr s) = Inr (JStr (take n s))"
| "slice0 n (JArr xs) = Inr (JArr (take n xs))"
| "slice0 n v = Inl TypeError"

text \<open>
  \<^verbatim>\<open>===\<close> and the key equality of a \<^verbatim>\<open>Map\<close> on parsed values: primitives by value,
  arrays and objects by identity. Every parsed array or object is stored at most once by
  the server, so two of them that meet in a comparison are never the same object.
\<close>

fun strict_eq :: "jsval \<Rightarrow> jsval \<Rightarrow> bool" where
  "strict_eq (JArr xs) b = False"
| "strict_eq (JObj kvs) b = False"
| "strict_eq a b = (a = b)"

text \<open>A \<^verbatim>\<open>Map\<close> keeps its keys in insertion order; setting a present key keeps its place.\<close>

type_synonym ('k, 'v) jsmap = "('k \<times> 'v) list"

fun map_set :: "'k \<Rightarrow> 'v \<Rightarrow> ('k, 'v) jsmap \<Rightarrow> ('k, 'v) jsmap" where
  "map_set k v [] = [(k, v)]"
| "map_set k v ((k', v') # m) = (if k' = k then (k, v) # m else (k', v') # map_set k v m)"

definition map_has :: "('k, 'v) jsmap \<Rightarrow> 'k \<Rightarrow> bool" where
  "map_has m k = (map_of m k \<noteq> None)"

section \<open>FrameCodec: outbound and inbound frames\<close>

type_synonym byte = "8 word"

text \<open>No \<^verbatim>\<open>Buffer\<close> is longer than \<^verbatim>\<open>buffer.constants.MAX_LENGTH\<close>.\<close>

definition kMaxLength :: nat where
  "kMaxLength = 2 ^ 53 - 1"

text \<open>
  A non-negative integer as the nearest double (ties to even): \<^verbatim>\<open>Number(bigint)\<close>, and
  the result of an addition of integer-valued doubles. Integers below \<open>2 ^ 53\<close> are exact.
\<close>

definition toDouble :: "nat \<Rightarrow> nat" where
  "toDouble n =
     (if n < 2 ^ 53 then n
      else let e = floorlog 2 n - 53; q = n div 2 ^ e; r = n mod 2 ^ e; h = 2 ^ (e - 1)
           in (if h < r \<or> (r = h \<and> odd q) then q + 1 else q) * 2 ^ e)"

definition writeUInt16BE :: "nat \<Rightarrow> byte list" where
  "writeUInt16BE v = [of_nat (v div 256), of_nat v]"

definition writeBigUInt64BE :: "nat \<Rightarrow> byte list" where
  "writeBigUInt64BE v = map (\<lambda>i. of_nat (v div 256 ^ i)) [7, 6, 5, 4, 3, 2, 1, 0]"

definition readUInt16BE :: "byte list \<Rightarrow> nat \<Rightarrow> nat" where
  "readUInt16BE b off = unat (b ! off) * 256 + unat (b ! (off + 1))"

definition readBigUInt64BE :: "byte list \<Rightarrow> nat \<Rightarrow> nat" where
  "readBigUInt64BE b off = foldl (\<lambda>acc x. acc * 256 + unat x) 0 (take 8 (drop off b))"

text \<open>
  \<^verbatim>\<open>ws.send(data)\<close> of part_000, on the bytes \<^verbatim>\<open>Buffer.from(data)\<close>: the bytes written to
  the socket, \<open>None\<close> when nothing is written (the connection is not open, or
  \<^verbatim>\<open>Buffer.concat\<close> refuses a frame longer than a \<^verbatim>\<open>Buffer\<close> can be and the
  \<^verbatim>\<open>catch\<close> swallows it). \<^verbatim>\<open>writeBigUInt64BE\<close> throws on a value of 65 bits, outside
  the \<^verbatim>\<open>try\<close>.
\<close>

definition ws_send :: "nat \<Rightarrow> byte list \<Rightarrow> js_error + byte list option" where
  "ws_send readyState buf =
     (if readyState \<noteq> 1 then Inr None
      else if length buf < 126 then Inr (Some (0x81 # of_nat (length buf) # buf))
      else if length buf < 65536 then Inr (Some (0x81 # 126 # writeUInt16BE (length buf) @ buf))
      else if 2 ^ 64 \<le> length buf then Inl RangeError
      else if kMaxLength < 10 + length buf then Inr None
      else Inr (Some (0x81 # 127 # writeBigUInt64BE (length buf) @ buf)))"

text \<open>
  What the \<^verbatim>\<open>'data'\<close> handler does with one frame: hand the payload of a text frame to
  \<^verbatim>\<open>handleMessage\<close>, answer a ping with a pong, or close.
\<close>

datatype frame_action = Dispatch "byte list" | Pong | Close

text \<open>\<^verbatim>\<open>payload[i] ^= mask[i % 4]\<close>; the mask bytes and the payload do not overlap.\<close>

definition unmask :: "byte list \<Rightarrow> byte list \<Rightarrow> byte list" where
  "unmask mk payload = map (\<lambda>(i, b). b XOR mk ! (i mod 4)) (enumerate 0 payload)"

text \<open>
  The declared payload length and the offset of what follows the length field; \<open>None\<close>
  when the extended length is not in the buffer yet (the handler returns and waits).
\<close>

definition frame_header :: "byte list \<Rightarrow> (nat \<times> nat) option" where
  "frame_header buffer =
     (let payloadLen = unat (buffer ! 1 AND 0x7f) in
      if payloadLen = 126 then
        (if length buffer < 4 then None else Some (readUInt16BE buffer 2, 4))
      else if payloadLen = 127 then
        (if length buffer < 10 then None else Some (toDouble (readBigUInt64BE buffer 2), 10))
      else Some (payloadLen, 2))"

text \<open>
  The \<^verbatim>\<open>while (buffer.length >= 2)\<close> loop: the actions taken, in order, and the bytes
  left in the buffer for the next chunk. A close frame returns from the handler.
\<close>

function frame_loop :: "byte list \<Rightarrow> frame_action list \<times> byte list" where
  "frame_loop buffer =
     (if 2 \<le> length buffer then
        (case frame_header buffer of
           None \<Rightarrow> ([], buffer)
         | Some (payloadLen, offset) \<Rightarrow>
             let opcode = buffer ! 0 AND 0x0f;
                 masked = (buffer ! 1 AND 0x80 \<noteq> 0);
                 maskSize = (if masked then 4 else 0);
                 totalLen = toDouble (offset + maskSize + payloadLen)
             in if length buffer < totalLen then ([], buffer)
                else
                  let raw = take (totalLen - (offset + maskSize)) (drop (offset + maskSize) buffer);
                      payload = (if masked then unmask (take 4 (drop offset buffer)) raw else raw);
                      rest = drop totalLen buffer
                  in if opcode = 0x08 then ([Close], rest)
                     else if opcode = 0x09 then
                       (let (acts, b) = frame_loop rest in (Pong # acts, b))
                     else if opcode = 0x01 then
                       (let (acts, b) = frame_loop rest in (Dispatch payload # acts, b))
                     else frame_loop rest)
      else ([], buffer))"
  by pat_completeness auto
termination
proof -
  have pos: "0 < toDouble n" if "0 < n" for n
  proof (cases "n < 2 ^ 53")
    case True
    with that show ?thesis by (simp add: toDouble_def)
  next
    case False
    define e where "e = floorlog 2 n - 53"
    have "(2::nat) ^ (floorlog 2 n - 1) \<le> n"
      using floorlog_bounds [of n 2] that by simp
    moreover have "(2::nat) ^ e \<le> 2 ^ (floorlog 2 n - 1)"
      unfolding e_def by (rule power_increasing) simp_all
    ultimately have "2 ^ e \<le> n" by linarith
    then have "0 < n div 2 ^ e"
      by (simp add: div_greater_zero_iff)
    with False show ?thesis
      by (simp add: toDouble_def Let_def e_def)
  qed
  have hdr: "0 < off" if "frame_header b = Some (p, off)" for b p off
    using that by (auto simp: frame_header_def Let_def split: if_splits)
  have dec: "length (drop (toDouble (off + m + p)) b) < length b"
    if "2 \<le> length b" "frame_header b = Some (p, off)" for b p off m
    using pos [of "off + m + p"] hdr [OF that(2)] that(1) by simp
  show ?thesis
    by (relation "measure length") (use dec in auto)
qed

text \<open>\<^verbatim>\<open>socket.on('data', chunk)\<close>: append the chunk to the buffer, then run the loop.\<close>

definition on_data :: "byte list \<Rightarrow> byte list \<Rightarrow> frame_action list \<times> byte list" where
  "on_data buffer chunk = frame_loop (buffer @ chunk)"

section \<open>The opening handshake\<close>

text \<open>
  \<^verbatim>\<open>crypto.createHash('sha1')\<close> and \<^verbatim>\<open>digest('base64')\<close> are Node's; they are written
  here from their standards (FIPS 180-4 and RFC 4648) so that a handshake can be computed.
  SHA-1 works on 32-bit words, kept as naturals below \<open>2 ^ 32\<close> with the wrap-around
  written out.
\<close>

definition add32 :: "nat \<Rightarrow> nat \<Rightarrow> nat" where
  "add32 x y = (x + y) mod 2 ^ 32"

definition rotl32 :: "nat \<Rightarrow> nat \<Rightarrow> nat" where
  "rotl32 n x = (x * 2 ^ n) mod 2 ^ 32 + x div 2 ^ (32 - n)"

definition not32 :: "nat \<Rightarrow> nat" where
  "not32 x = 2 ^ 32 - 1 - x"

text \<open>The padding of a message of \<open>n\<close> bytes: \<open>0x80\<close>, zeros, and the bit length on 8 bytes.\<close>

definition sha1_pad :: "nat \<Rightarrow> nat list" where
  "sha1_pad n = 128 # replicate ((119 - n mod 64) mod 64) 0 @
     map (\<lambda>i. (8 * n) div 256 ^ i mod 256) [7, 6, 5, 4, 3, 2, 1, 0]"

fun be_words :: "nat list \<Rightarrow> nat list" where
  "be_words (a # b # c # d # r) = (((a * 256 + b) * 256 + c) * 256 + d) # be_words r"
| "be_words r = []"

definition sha1_f :: "nat \<Rightarrow> nat \<Rightarrow> nat \<Rightarrow> nat \<Rightarrow> nat" where
  "sha1_f t b c d =
     (if t < 20 then (b AND c) OR (not32 b AND d)
      else if t < 40 then b XOR c XOR d
      else if t < 60 then (b AND c) OR (b AND d) OR (c AND d)
      else b XOR c XOR d)"

definition sha1_k :: "nat \<Rightarrow> nat" where
  "sha1_k t = (if t < 20 then 0x5A827999 else if t < 40 then 0x6ED9EBA1
               else if t < 60 then 0x8F1BBCDC else 0xCA62C1D6)"

text \<open>
  The rounds \<open>ts\<close> of one block; \<open>w\<close> is the window of the last sixteen words of the
  message schedule, \<open>hd w\<close> the word of the current round.
\<close>

fun sha1_rounds ::
  "nat list \<Rightarrow> nat list \<Rightarrow> nat \<times> nat \<times> nat \<times> nat \<times> nat \<Rightarrow> nat \<times> nat \<times> nat \<times> nat \<times> nat" where
  "sha1_rounds [] w s = s"
| "sha1_rounds (t # ts) w (a, b, c, d, e) =
     sha1_rounds ts
       (tl w @ [rotl32 1 (w ! 13 XOR w ! 8 XOR w ! 2 XOR w ! 0)])
       (add32 (add32 (add32 (add32 (rotl32 5 a) (sha1_f t b c d)) e) (sha1_k t)) (hd w),
        a, rotl32 30 b, c, d)"

definition sha1_block :: "nat list \<Rightarrow> nat list \<Rightarrow> nat list" where
  "sha1_block h blk =
     (case sha1_rounds [0..<80] (be_words blk) (h ! 0, h ! 1, h ! 2, h ! 3, h ! 4) of
        (a, b, c, d, e) \<Rightarrow>
          [add32 (h ! 0) a, add32 (h ! 1) b, add32 (h ! 2) c, add32 (h ! 3) d, add32 (h ! 4) e])"

fun sha1_blocks :: "nat list \<Rightarrow> nat list \<Rightarrow> nat list" where
  "sha1_blocks h [] = h"
| "sha1_blocks h (x # xs) = sha1_blocks (sha1_block h (take 64 (x # xs))) (drop 64 (x # xs))"

definition sha1 :: "byte list \<Rightarrow> byte list" where
  "sha1 m =
     concat (map (\<lambda>w. map (\<lambda>i. of_nat (w div 256 ^ i)) [3, 2, 1, 0])
       (sha1_blocks [0x67452301, 0xEFCDAB89, 0x98BADCFE, 0x10325476, 0xC3D2E1F0]
          (map unat m @ sha1_pad (length m))))"

definition b64_chars :: string where
  "b64_chars = ''ABCDEFGHIJKLMNOPQRSTUVWXYZabcdefghijklmnopqrstuvwxyz0123456789+/''"

definition b64 :: "nat \<Rightarrow> char" where
  "b64 i = b64_chars ! i"

fun base64 :: "nat list \<Rightarrow> string" where
  "base64 (a # b # c # r) =
     [b64 (a div 4), b64 (a mod 4 * 16 + b div 16), b64 (b mod 16 * 4 + c div 64), b64 (c mod 64)]
     @ base64 r"
| "base64 [a, b] = [b64 (a div 4), b64 (a mod 4 * 16 + b div 16), b64 (b mod 16 * 4), CHR ''='']"
| "base64 [a] = [b64 (a div 4), b64 (a mod 4 * 16), CHR ''='', CHR ''='']"
| "base64 [] = []"

text \<open>
  \<^verbatim>\<open>hash.update(string)\<close> hashes the UTF-8 bytes of the string: a string of this theory
  is read as that byte sequence.
\<close>

definition utf8 :: "string \<Rightarrow> byte list" where
  "utf8 s = map of_char s"

text \<open>
  \<^verbatim>\<open>acceptWebSocket\<close> of part_000, up to the response it writes. The header
  \<^verbatim>\<open>sec-websocket-key\<close> may be absent: \<^verbatim>\<open>undefined + '...'\<close> is the string
  \<^verbatim>\<open>'undefined...'\<close>.
\<close>

definition handshake_guid :: string where
  "handshake_guid = ''258EAFA5-E914-47DA-95CA-5AB5A04DF50A''"

definition accept_value :: "string option \<Rightarrow> string" where
  "accept_value key =
     base64 (map unat (sha1 (utf8 ((case key of None \<Rightarrow> ''undefined'' | Some k \<Rightarrow> k) @ handshake_guid))))"

definition crlf :: string where
  "crlf = [CHR 0x0D, CHR 0x0A]"

definition acceptWebSocket :: "string option \<Rightarrow> string" where
  "acceptWebSocket key =
     ''HTTP/1.1 101 Switching Protocols'' @ crlf @
     ''Upgrade: websocket'' @ crlf @
     ''Connection: Upgrade'' @ crlf @
     ''Sec-WebSocket-Accept: '' @ accept_value key @ crlf @
     crlf"

section \<open>Lobbies, players and connections\<close>

definition TIMER_QUESTION :: nat where "TIMER_QUESTION = 60"
definition TIMER_ANSWER :: nat where "TIMER_ANSWER = 60"
definition TIMER_PER_PLAYER :: nat where "TIMER_PER_PLAYER = 30"
definition ROUNDS :: nat where "ROUNDS = 3"

datatype phase = Lobby | Question | Answering | Reveal | Guessing | Voting | Results | Gameover

text \<open>
  \<^verbatim>\<open>{ id, name, score, connected }\<close>. The field \<^verbatim>\<open>id\<close> is \<open>pid\<close> here (\<open>aid\<close> for an
  answer, \<open>cid\<close> for a client), \<^verbatim>\<open>connected\<close> is \<open>connected_flag\<close>. A name is what
  \<^verbatim>\<open>slice\<close> returned: a string, or an array when the client sent one.
\<close>

record player =
  pid :: string
  name :: jsval
  score :: nat
  connected_flag :: bool

text \<open>An entry of \<^verbatim>\<open>shuffledAnswers\<close>: \<^verbatim>\<open>{ id, text, playerId }\<close>.\<close>

record answer =
  aid :: string
  atext :: jsval
  playerId :: string

record guess_result =
  answerId :: string
  answerText :: jsval
  actualPlayer :: "string \<times> jsval"
  guessedPlayer :: "(string \<times> jsval) option"
  isCorrect :: bool

text \<open>\<^verbatim>\<open>lobby.guessResults = { correct, total, results }\<close>.\<close>

record guess_summary =
  correct :: nat
  total_n :: nat
  results :: "guess_result list"

record votes =
  best :: "(string, jsval) jsmap"
  funniest :: "(string, jsval) jsmap"

text \<open>
  The lobby object of \<^verbatim>\<open>createLobby\<close>. \<open>timer\<close> holds the handle \<^verbatim>\<open>setTimeout\<close>
  returned. part_000 has two more fields that nothing reads (\<^verbatim>\<open>currentRound\<close>,
  \<^verbatim>\<open>roundNumber\<close>) and neither initialises nor resets \<^verbatim>\<open>guessResults\<close>.
\<close>

record lobby =
  code :: string
  hostId :: string
  players :: "player list"
  phase :: phase
  currentGuesserIdx :: nat
  guesserOrder :: "string list"
  currentQuestion :: jsval
  answers :: "(string, jsval) jsmap"
  revealIndex :: nat
  guesses :: "(string, jsval) jsmap"
  timer :: "nat option"
  timerEnd :: "nat option"
  votes :: votes
  shuffledAnswers :: "answer list"
  guessResults :: "guess_summary option"

text \<open>An entry of \<^verbatim>\<open>clients\<close>: \<^verbatim>\<open>{ id, lobbyCode, name }\<close>.\<close>

record client =
  cid :: string
  lobbyCode :: string
  cname :: jsval

text \<open>The four callbacks \<^verbatim>\<open>startTimer\<close> is given, each a closure over its lobby.\<close>

datatype timer_cb = QuestionTimeout | AnswerTimeout | GuessTimeout | VoteTimeout

text \<open>
  The events the server sends. A guesser, an answer and a listed player are sent as
  \<^verbatim>\<open>{ id, name }\<close> or \<^verbatim>\<open>{ id, text }\<close>: a pair here.
\<close>

datatype event =
    Joined string string bool
  | Error string
  | LobbyUpdate "player list" string string
  | PhaseLobby
  | PhaseQuestion "string \<times> jsval" nat nat nat nat
  | PhaseAnswering jsval "string \<times> jsval"
  | PhaseReveal jsval nat "string \<times> jsval"
  | RevealAnswer nat nat "string \<times> jsval"
  | PhaseGuessing jsval "(string \<times> jsval) list" "(string \<times> jsval) list" "string \<times> jsval"
  | PhaseVoting jsval "(string \<times> jsval) list" "string \<times> jsval"
  | PhaseResults "guess_summary option" "(jsval \<times> jsval option) option"
      "(jsval \<times> jsval option) option" "player list"
  | PhaseGameover "player list"
  | Timer nat nat
  | AnswerSubmitted
  | AnswerProgress nat nat

text \<open>
  The process: the lobby objects (by address; a timer closure holds the address of its
  lobby), the two global maps \<^verbatim>\<open>lobbies\<close> and \<^verbatim>\<open>clients\<close>, the \<^verbatim>\<open>readyState\<close> of every
  connection, the timeouts the event loop has pending (handle, lobby, callback), what was
  sent (connection, event), the clock \<^verbatim>\<open>Date.now()\<close>, and the values
  \<^verbatim>\<open>Math.random\<close> and \<^verbatim>\<open>crypto.randomBytes\<close> are going to return.
\<close>

record server =
  objs :: "nat \<Rightarrow> lobby"
  nextObj :: nat
  lobbies :: "(string, nat) jsmap"
  clients :: "(nat, client) jsmap"
  readyState :: "nat \<Rightarrow> nat"
  timeouts :: "(nat \<times> nat \<times> timer_cb) list"
  nextHandle :: nat
  outbox :: "(nat \<times> event) list"
  now :: nat
  mathRandom :: "nat \<Rightarrow> nat"
  rpos :: nat
  randomBytes :: "nat \<Rightarrow> byte"
  epos :: nat

definition upd :: "nat \<Rightarrow> (lobby \<Rightarrow> lobby) \<Rightarrow> server \<Rightarrow> server" where
  "upd a f s = s\<lparr>objs := (objs s)(a := f (objs s a))\<rparr>"

subsection \<open>Randomness\<close>

text \<open>
  \<^verbatim>\<open>Math.floor(Math.random() * n)\<close> is some index below \<open>n\<close>, whichever the double
  arithmetic picks: the draw \<open>r\<close> stands for it, brought into the range.
\<close>

definition randomInt :: "nat \<Rightarrow> nat \<Rightarrow> nat" where
  "randomInt n r = r mod n"

text \<open>
  \<^verbatim>\<open>shuffleArray\<close>: the loop at index \<open>i\<close>, reading the draws of \<open>rnd\<close> from position
  \<open>k\<close>. The copy \<open>a\<close> has at least \<open>i + 1\<close> elements, so the swap stays in range.
\<close>

fun shuffle_loop :: "nat \<Rightarrow> (nat \<Rightarrow> nat) \<Rightarrow> nat \<Rightarrow> 'a list \<Rightarrow> 'a list" where
  "shuffle_loop 0 rnd k a = a"
| "shuffle_loop (Suc i) rnd k a =
     (let j = randomInt (Suc i + 1) (rnd k)
      in shuffle_loop i rnd (k + 1) (a[Suc i := a ! j, j := a ! Suc i]))"

definition shuffleArray :: "(nat \<Rightarrow> nat) \<Rightarrow> nat \<Rightarrow> 'a list \<Rightarrow> 'a list" where
  "shuffleArray rnd k arr = shuffle_loop (length arr - 1) rnd k arr"

definition hex_digit :: "nat \<Rightarrow> char" where
  "hex_digit n = ''0123456789abcdef'' ! n"

text \<open>\<^verbatim>\<open>crypto.randomBytes(8).toString('hex')\<close>, on the bytes from position \<open>k\<close>.\<close>

definition hex_id :: "(nat \<Rightarrow> byte) \<Rightarrow> nat \<Rightarrow> string" where
  "hex_id rb k =
     concat (map (\<lambda>i. [hex_digit (unat (rb (k + i)) div 16), hex_digit (unat (rb (k + i)) mod 16)])
       [0, 1, 2, 3, 4, 5, 6, 7])"

definition generateId :: "server \<Rightarrow> string \<times> server" where
  "generateId s = (hex_id (randomBytes s) (epos s), s\<lparr>epos := epos s + 8\<rparr>)"

definition lobby_chars :: string where
  "lobby_chars = ''ABCDEFGHJKLMNPQRSTUVWXYZ23456789''"

text \<open>
  \<^verbatim>\<open>generateLobbyCode\<close>: five draws, again while the code is taken. It returns the code
  and the position of the next draw, or never returns.
\<close>

partial_function (option) generateLobbyCode ::
  "(nat \<Rightarrow> nat) \<Rightarrow> string list \<Rightarrow> nat \<Rightarrow> (string \<times> nat) option" where
  "generateLobbyCode rnd taken k =
     (let c = map (\<lambda>i. lobby_chars ! randomInt (length lobby_chars) (rnd (k + i))) [0, 1, 2, 3, 4]
      in if c \<in> set taken then generateLobbyCode rnd taken (k + 5) else Some (c, k + 5))"

subsection \<open>Sending\<close>

definition sendTo :: "nat \<Rightarrow> event \<Rightarrow> server \<Rightarrow> server" where
  "sendTo ws ev s = (if readyState s ws = 1 then s\<lparr>outbox := outbox s @ [(ws, ev)]\<rparr> else s)"

text \<open>
  The connections \<^verbatim>\<open>broadcastToLobby\<close> sends to: those of \<^verbatim>\<open>clients\<close>, in its order,
  whose entry has the code of the lobby and that are open.
\<close>

definition audience :: "server \<Rightarrow> nat \<Rightarrow> nat list" where
  "audience s a =
     map fst (filter (\<lambda>(ws, c). lobbyCode c = code (objs s a) \<and> readyState s ws = 1) (clients s))"

definition broadcastToLobby :: "nat \<Rightarrow> event \<Rightarrow> server \<Rightarrow> server" where
  "broadcastToLobby a ev s = s\<lparr>outbox := outbox s @ map (\<lambda>ws. (ws, ev)) (audience s a)\<rparr>"

definition broadcastLobbyState :: "nat \<Rightarrow> server \<Rightarrow> server" where
  "broadcastLobbyState a s =
     broadcastToLobby a
       (LobbyUpdate (players (objs s a)) (hostId (objs s a)) (code (objs s a))) s"

subsection \<open>Timer helpers\<close>

definition clearTimer :: "nat \<Rightarrow> server \<Rightarrow> server" where
  "clearTimer a s =
     (case timer (objs s a) of
        None \<Rightarrow> s
      | Some h \<Rightarrow>
          upd a (\<lambda>l. l\<lparr>timer := None, timerEnd := None\<rparr>)
            (s\<lparr>timeouts := filter (\<lambda>(h', a', cb). h' \<noteq> h) (timeouts s)\<rparr>))"

text \<open>\<^verbatim>\<open>setTimeout\<close>: a fresh handle, and one more pending timeout.\<close>

definition setTimeout :: "nat \<Rightarrow> timer_cb \<Rightarrow> server \<Rightarrow> nat \<times> server" where
  "setTimeout a cb s =
     (nextHandle s,
      s\<lparr>timeouts := timeouts s @ [(nextHandle s, a, cb)], nextHandle := nextHandle s + 1\<rparr>)"

definition startTimer :: "nat \<Rightarrow> nat \<Rightarrow> timer_cb \<Rightarrow> server \<Rightarrow> server" where
  "startTimer a seconds cb s =
     (let s1 = clearTimer a s;
          s2 = upd a (\<lambda>l. l\<lparr>timerEnd := Some (now s1 + seconds * 1000)\<rparr>) s1;
          (h, s3) = setTimeout a cb s2;
          s4 = upd a (\<lambda>l. l\<lparr>timer := Some h\<rparr>) s3
      in broadcastToLobby a (Timer seconds (now s1 + seconds * 1000)) s4)"

subsection \<open>Guesser and answerers\<close>

text \<open>
  \<^verbatim>\<open>guesserOrder[currentGuesserIdx]\<close> is \<^verbatim>\<open>undefined\<close> past the end of the order; no
  player has that id, every player differs from it.
\<close>

definition getGuesser :: "lobby \<Rightarrow> player option" where
  "getGuesser l =
     (if currentGuesserIdx l < length (guesserOrder l)
      then find (\<lambda>p. pid p = guesserOrder l ! currentGuesserIdx l) (players l)
      else None)"

definition getAnswerers :: "lobby \<Rightarrow> player list" where
  "getAnswerers l =
     (if currentGuesserIdx l < length (guesserOrder l)
      then filter (\<lambda>p. pid p \<noteq> guesserOrder l ! currentGuesserIdx l) (players l)
      else players l)"

text \<open>\<^verbatim>\<open>{ id: p.id, name: p.name }\<close>, and \<^verbatim>\<open>{ id: a.id, text: a.text }\<close>.\<close>

definition id_name :: "player \<Rightarrow> string \<times> jsval" where
  "id_name p = (pid p, name p)"

definition id_text :: "answer \<Rightarrow> string \<times> jsval" where
  "id_text x = (aid x, atext x)"

text \<open>
  \<^verbatim>\<open>players.find(p => p.id === i).score += n\<close>: the first player with the id is the one
  changed.
\<close>

fun add_score :: "string \<Rightarrow> nat \<Rightarrow> player list \<Rightarrow> player list" where
  "add_score i n [] = []"
| "add_score i n (p # ps) =
     (if pid p = i then p\<lparr>score := score p + n\<rparr> # ps else p # add_score i n ps)"

text \<open>
  \<^verbatim>\<open>players.map(...).sort((a, b) => b.score - a.score)\<close>: by falling score, players of
  equal score in the order they had.
\<close>

definition scoreboard :: "player list \<Rightarrow> player list" where
  "scoreboard ps = sort_key (\<lambda>p. - int (score p)) ps"

subsection \<open>Phase transitions\<close>

definition startQuestionPhase :: "nat \<Rightarrow> server \<Rightarrow> js_error + server" where
  "startQuestionPhase a s =
     (let s1 = upd a (\<lambda>l. l\<lparr>phase := Question, currentQuestion := JStr [], answers := [],
                 guesses := [], votes := \<lparr>best = [], funniest = []\<rparr>, shuffledAnswers := [],
                 revealIndex := 0, guessResults := None\<rparr>) s;
          l = objs s1 a
      in case getGuesser l of
           None \<Rightarrow> Inl TypeError
         | Some guesser \<Rightarrow>
             Inr (startTimer a TIMER_QUESTION QuestionTimeout
               (broadcastToLobby a
                  (PhaseQuestion (id_name guesser) (currentGuesserIdx l + 1) (length (guesserOrder l))
                     (currentGuesserIdx l div length (players l) + 1) ROUNDS) s1)))"

definition startAnswerPhase :: "nat \<Rightarrow> server \<Rightarrow> js_error + server" where
  "startAnswerPhase a s =
     (let s1 = upd a (\<lambda>l. l\<lparr>phase := Answering\<rparr>) s;
          l = objs s1 a
      in case getGuesser l of
           None \<Rightarrow> Inl TypeError
         | Some guesser \<Rightarrow>
             Inr (startTimer a TIMER_ANSWER AnswerTimeout
               (broadcastToLobby a (PhaseAnswering (currentQuestion l) (id_name guesser)) s1)))"

definition sendRevealAnswer :: "nat \<Rightarrow> server \<Rightarrow> server" where
  "sendRevealAnswer a s =
     (let l = objs s a
      in if revealIndex l < length (shuffledAnswers l)
         then broadcastToLobby a
                (RevealAnswer (revealIndex l) (length (shuffledAnswers l))
                   (id_text (shuffledAnswers l ! revealIndex l))) s
         else s)"

text \<open>One entry per answer, in the order of the map, each with a fresh id.\<close>

fun make_entries :: "(nat \<Rightarrow> byte) \<Rightarrow> nat \<Rightarrow> (string, jsval) jsmap \<Rightarrow> answer list" where
  "make_entries rb k [] = []"
| "make_entries rb k ((p, t) # m) =
     \<lparr>aid = hex_id rb k, atext = t, playerId = p\<rparr> # make_entries rb (k + 8) m"

definition startRevealPhase :: "nat \<Rightarrow> server \<Rightarrow> js_error + server" where
  "startRevealPhase a s =
     (let entries = make_entries (randomBytes s) (epos s) (answers (objs s a));
          s1 = s\<lparr>epos := epos s + 8 * length entries\<rparr>;
          s2 = upd a (\<lambda>l. l\<lparr>shuffledAnswers := shuffleArray (mathRandom s1) (rpos s1) entries,
                 revealIndex := 0, phase := Reveal\<rparr>) (s1\<lparr>rpos := rpos s1 + (length entries - 1)\<rparr>);
          l = objs s2 a
      in case getGuesser l of
           None \<Rightarrow> Inl TypeError
         | Some guesser \<Rightarrow>
             Inr (sendRevealAnswer a
               (broadcastToLobby a
                  (PhaseReveal (currentQuestion l) (length (shuffledAnswers l)) (id_name guesser)) s2)))"

definition startGuessingPhase :: "nat \<Rightarrow> server \<Rightarrow> js_error + server" where
  "startGuessingPhase a s =
     (let s1 = upd a (\<lambda>l. l\<lparr>phase := Guessing\<rparr>) s;
          l = objs s1 a;
          answerers = getAnswerers l
      in case getGuesser l of
           None \<Rightarrow> Inl TypeError
         | Some guesser \<Rightarrow>
             Inr (startTimer a (TIMER_PER_PLAYER * length answerers) GuessTimeout
               (broadcastToLobby a
                  (PhaseGuessing (currentQuestion l) (map id_text (shuffledAnswers l))
                     (map id_name answerers) (id_name guesser)) s1)))"

definition startVotingPhase :: "nat \<Rightarrow> server \<Rightarrow> js_error + server" where
  "startVotingPhase a s =
     (let s1 = upd a (\<lambda>l. l\<lparr>phase := Voting\<rparr>) s;
          l = objs s1 a
      in case getGuesser l of
           None \<Rightarrow> Inl TypeError
         | Some guesser \<Rightarrow>
             Inr (startTimer a 20 VoteTimeout
               (broadcastToLobby a
                  (PhaseVoting (currentQuestion l) (map id_text (shuffledAnswers l)) (id_name guesser))
                  s1)))"

subsection \<open>Votes and guesses\<close>

text \<open>\<^verbatim>\<open>counts.set(answerId, (counts.get(answerId) || 0) + 1)\<close>.\<close>

fun bump :: "jsval \<Rightarrow> (jsval, nat) jsmap \<Rightarrow> (jsval, nat) jsmap" where
  "bump v [] = [(v, 1)]"
| "bump v ((k, n) # m) = (if strict_eq k v then (k, n + 1) # m else (k, n) # bump v m)"

text \<open>The first loop of \<^verbatim>\<open>tallyVotes\<close>, over the votes of one category in map order.\<close>

definition count_votes :: "(string, jsval) jsmap \<Rightarrow> (jsval, nat) jsmap" where
  "count_votes m = foldl (\<lambda>counts v. bump v counts) [] (map snd m)"

text \<open>
  The second loop: \<^verbatim>\<open>if (count > max) { max = count; winner = id; }\<close>, from
  \<^verbatim>\<open>winner = null, max = 0\<close>.
\<close>

definition winner_step :: "jsval option \<times> nat \<Rightarrow> jsval \<times> nat \<Rightarrow> jsval option \<times> nat" where
  "winner_step st e = (if snd st < snd e then (Some (fst e), snd e) else st)"

definition winner :: "(jsval, nat) jsmap \<Rightarrow> jsval option" where
  "winner counts = fst (foldl winner_step (None, 0) counts)"

text \<open>
  The bonus point of one category: \<^verbatim>\<open>if (winnerId)\<close>, the answer with that id if there
  is one, its author if the author is a player.
\<close>

definition award :: "jsval option \<Rightarrow> lobby \<Rightarrow> lobby" where
  "award w l =
     (case w of
        None \<Rightarrow> l
      | Some k \<Rightarrow>
          if truthy k then
            (case find (\<lambda>x. JStr (aid x) = k) (shuffledAnswers l) of
               None \<Rightarrow> l
             | Some x \<Rightarrow>
                 (case find (\<lambda>p. pid p = playerId x) (players l) of
                    None \<Rightarrow> l
                  | Some p \<Rightarrow> l\<lparr>players := add_score (playerId x) 1 (players l)\<rparr>))
          else l)"

text \<open>\<^verbatim>\<open>{ text, player: players.find(...)?.name }\<close> of the answer with the winning id.\<close>

definition winning_answer :: "lobby \<Rightarrow> jsval option \<Rightarrow> (jsval \<times> jsval option) option" where
  "winning_answer l w =
     (case find (\<lambda>x. w = Some (JStr (aid x))) (shuffledAnswers l) of
        None \<Rightarrow> None
      | Some x \<Rightarrow> Some (atext x, map_option name (find (\<lambda>p. pid p = playerId x) (players l))))"

definition showResults :: "nat \<Rightarrow> jsval option \<Rightarrow> jsval option \<Rightarrow> server \<Rightarrow> server" where
  "showResults a bestAnswerId funniestAnswerId s =
     (let s1 = upd a (\<lambda>l. l\<lparr>phase := Results\<rparr>) s;
          l = objs s1 a
      in broadcastToLobby a
           (PhaseResults (guessResults l) (winning_answer l bestAnswerId)
              (winning_answer l funniestAnswerId) (scoreboard (players l))) s1)"

definition tallyVotes :: "nat \<Rightarrow> server \<Rightarrow> server" where
  "tallyVotes a s =
     (let l = objs s a;
          bestAnswerId = winner (count_votes (best (votes l)));
          funniestAnswerId = winner (count_votes (funniest (votes l)))
      in showResults a bestAnswerId funniestAnswerId
           (upd a (\<lambda>l. award funniestAnswerId (award bestAnswerId l)) s))"

text \<open>
  The loop of \<^verbatim>\<open>scoreGuesses\<close>, with its two accumulators. \<^verbatim>\<open>actualPlayer.id\<close> throws
  when the author of an answer is not in the player list.
\<close>

fun score_loop ::
  "lobby \<Rightarrow> answer list \<Rightarrow> nat \<Rightarrow> guess_result list \<Rightarrow> js_error + nat \<times> guess_result list" where
  "score_loop l [] n rs = Inr (n, rs)"
| "score_loop l (x # xs) n rs =
     (let guessedPlayerId = (case map_of (guesses l) (aid x) of None \<Rightarrow> JUndefined | Some v \<Rightarrow> v);
          guessed = find (\<lambda>p. JStr (pid p) = guessedPlayerId) (players l);
          ok = (guessedPlayerId = JStr (playerId x))
      in case find (\<lambda>p. pid p = playerId x) (players l) of
           None \<Rightarrow> Inl TypeError
         | Some actual \<Rightarrow>
             score_loop l xs (if ok then n + 1 else n)
               (rs @ [\<lparr>answerId = aid x, answerText = atext x, actualPlayer = id_name actual,
                        guessedPlayer = map_option id_name guessed, isCorrect = ok\<rparr>]))"

definition scoreGuesses :: "nat \<Rightarrow> server \<Rightarrow> js_error + server" where
  "scoreGuesses a s =
     (let l = objs s a
      in case score_loop l (shuffledAnswers l) 0 [] of
           Inl e \<Rightarrow> Inl e
         | Inr (n, rs) \<Rightarrow>
             (case getGuesser l of
                None \<Rightarrow> Inl TypeError
              | Some guesser \<Rightarrow>
                  startVotingPhase a
                    (upd a (\<lambda>l. l\<lparr>players := add_score (pid guesser) n (players l),
                         guessResults := Some \<lparr>correct = n, total_n = length (shuffledAnswers l),
                           results = rs\<rparr>\<rparr>) s)))"

subsection \<open>Turns and games\<close>

definition nextTurn :: "nat \<Rightarrow> server \<Rightarrow> js_error + server" where
  "nextTurn a s =
     (let s1 = upd a (\<lambda>l. l\<lparr>currentGuesserIdx := currentGuesserIdx l + 1\<rparr>) s;
          l = objs s1 a
      in if length (guesserOrder l) \<le> currentGuesserIdx l
         then (let s2 = upd a (\<lambda>l. l\<lparr>phase := Gameover\<rparr>) s1
               in Inr (broadcastToLobby a (PhaseGameover (scoreboard (players (objs s2 a)))) s2))
         else startQuestionPhase a s1)"

text \<open>
  The loop of \<^verbatim>\<open>startGame\<close>: \<open>r\<close> rounds to go, each pushing a shuffle of the player ids
  that reads its own draws; the order and the position of the next draw.
\<close>

fun build_order ::
  "nat \<Rightarrow> (nat \<Rightarrow> nat) \<Rightarrow> nat \<Rightarrow> string list \<Rightarrow> string list \<Rightarrow> string list \<times> nat" where
  "build_order 0 rnd k playerIds order = (order, k)"
| "build_order (Suc r) rnd k playerIds order =
     build_order r rnd (k + (length playerIds - 1)) playerIds (order @ shuffleArray rnd k playerIds)"

definition startGame :: "nat \<Rightarrow> server \<Rightarrow> js_error + server" where
  "startGame a s =
     (let playerIds = map pid (players (objs s a));
          (order, k) = build_order ROUNDS (mathRandom s) (rpos s) playerIds []
      in startQuestionPhase a
           (upd a (\<lambda>l. l\<lparr>guesserOrder := order, currentGuesserIdx := 0,
                      players := map (\<lambda>p. p\<lparr>score := 0\<rparr>) (players l)\<rparr>)
              (s\<lparr>rpos := k\<rparr>)))"

subsection \<open>Timer callbacks\<close>

definition default_question :: string where
  "default_question = ''What'' @ [CHR 0x27] @ ''s the best thing about being alive?''"

text \<open>\<^verbatim>\<open>answerers.forEach(p => { if (!answers.has(p.id)) answers.set(p.id, '...') })\<close>.\<close>

definition fill_blanks :: "player list \<Rightarrow> (string, jsval) jsmap \<Rightarrow> (string, jsval) jsmap" where
  "fill_blanks answerers m =
     foldl (\<lambda>m p. if map_has m (pid p) then m else map_set (pid p) (JStr ''...'') m) m answerers"

fun callback :: "timer_cb \<Rightarrow> nat \<Rightarrow> server \<Rightarrow> js_error + server" where
  "callback QuestionTimeout a s =
     startAnswerPhase a
       (upd a (\<lambda>l. if truthy (currentQuestion l) then l
                   else l\<lparr>currentQuestion := JStr default_question\<rparr>) s)"
| "callback AnswerTimeout a s =
     startRevealPhase a (upd a (\<lambda>l. l\<lparr>answers := fill_blanks (getAnswerers l) (answers l)\<rparr>) s)"
| "callback GuessTimeout a s = scoreGuesses a s"
| "callback VoteTimeout a s = Inr (tallyVotes a s)"

text \<open>
  The timeout with handle \<open>h\<close> fires: it is pending no more, the function
  \<^verbatim>\<open>startTimer\<close> gave to \<^verbatim>\<open>setTimeout\<close> clears the two timer fields and runs the callback.
\<close>

definition fire :: "nat \<Rightarrow> server \<Rightarrow> js_error + server" where
  "fire h s =
     (case find (\<lambda>(h', a, cb). h' = h) (timeouts s) of
        None \<Rightarrow> Inr s
      | Some (h', a, cb) \<Rightarrow>
          callback cb a
            (upd a (\<lambda>l. l\<lparr>timer := None, timerEnd := None\<rparr>)
               (s\<lparr>timeouts := filter (\<lambda>(h', a', cb'). h' \<noteq> h) (timeouts s)\<rparr>)))"

subsection \<open>Message dispatch\<close>

text \<open>A property of a message that is known not to be \<^verbatim>\<open>null\<close>.\<close>

definition field :: "jsval \<Rightarrow> string \<Rightarrow> jsval" where
  "field msg k = (case get_prop msg k of Inl e \<Rightarrow> JUndefined | Inr v \<Rightarrow> v)"

text \<open>
  \<^verbatim>\<open>toUpperCase\<close> of one code unit below 256, by the case mapping of Unicode: the letters
  a to z and the letters U+00E0 to U+00FE (U+00F7, the division sign, is none) have their
  capital 32 below, the sharp s U+00DF becomes the two letters SS, everything else is kept.
  The capitals of the micro sign U+00B5 and of U+00FF are U+039C and U+0178, code units
  that a \<open>char\<close> does not hold: \<open>None\<close>.
\<close>

definition capital :: "char \<Rightarrow> string option" where
  "capital c =
     (let n = (of_char c :: nat)
      in if (97 \<le> n \<and> n \<le> 122) \<or> (224 \<le> n \<and> n \<le> 254 \<and> n \<noteq> 247)
         then Some [char_of (n - 32)]
         else if n = 223 then Some ''SS''
         else if n = 181 \<or> n = 255 then None
         else Some [c])"

text \<open>
  \<^verbatim>\<open>toUpperCase\<close> of a string; \<open>None\<close> is a result with a code unit above 255, a string
  that is none of the model.
\<close>

fun toUpperCase :: "string \<Rightarrow> string option" where
  "toUpperCase [] = Some []"
| "toUpperCase (c # s) =
     (case capital c of
        None \<Rightarrow> None
      | Some u \<Rightarrow> (case toUpperCase s of None \<Rightarrow> None | Some r \<Rightarrow> Some (u @ r)))"

text \<open>
  The white space and the line terminators of ECMAScript below 256: TAB, LF, VT, FF, CR,
  SP and the no-break space U+00A0. \<^verbatim>\<open>trim\<close> strips them at both ends.
\<close>

definition white_space :: "char \<Rightarrow> bool" where
  "white_space c = ((of_char c :: nat) \<in> {9, 10, 11, 12, 13, 32, 160})"

definition trim :: "string \<Rightarrow> string" where
  "trim s = rev (dropWhile white_space (rev (dropWhile white_space s)))"

text \<open>
  \<^verbatim>\<open>(msg.code || '').toUpperCase().trim()\<close>: only a string has the method. No code unit
  above 255 is white space, so \<^verbatim>\<open>trim\<close> keeps those that \<^verbatim>\<open>toUpperCase\<close> made: the result
  is \<open>None\<close> again.
\<close>

definition code_of :: "jsval \<Rightarrow> js_error + string option" where
  "code_of msg =
     (case js_or (field msg ''code'') (JStr []) of
        JStr c \<Rightarrow> Inr (map_option trim (toUpperCase c))
      | v \<Rightarrow> Inl TypeError)"

function decimal :: "nat \<Rightarrow> string" where
  "decimal n = (if n < 10 then [''0123456789'' ! n] else decimal (n div 10) @ [''0123456789'' ! (n mod 10)])"
  by pat_completeness auto
termination
  by (relation "measure id") auto

text \<open>
  \<^verbatim>\<open>Object.entries\<close>: the properties of an object, the indexed elements of an array, the
  indexed characters of a string; a number or a boolean has none.
\<close>

fun entries :: "jsval \<Rightarrow> (string \<times> jsval) list" where
  "entries (JObj kvs) = kvs"
| "entries (JArr xs) = zip (map decimal [0..<length xs]) xs"
| "entries (JStr s) = zip (map decimal [0..<length s]) (map (\<lambda>c. JStr [c]) s)"
| "entries v = []"

text \<open>\<^verbatim>\<open>new Map(entries)\<close>.\<close>

definition new_Map :: "('k \<times> 'v) list \<Rightarrow> ('k, 'v) jsmap" where
  "new_Map es = foldl (\<lambda>m e. map_set (fst e) (snd e) m) [] es"

definition new_lobby :: "string \<Rightarrow> string \<Rightarrow> jsval \<Rightarrow> lobby" where
  "new_lobby c hostId' hostName =
     \<lparr>code = c, hostId = hostId',
      players = [\<lparr>pid = hostId', name = hostName, score = 0, connected_flag = True\<rparr>],
      phase = Lobby, currentGuesserIdx = 0, guesserOrder = [], currentQuestion = JStr [],
      answers = [], revealIndex = 0, guesses = [], timer = None, timerEnd = None,
      votes = \<lparr>best = [], funniest = []\<rparr>, shuffledAnswers = [], guessResults = None\<rparr>"

text \<open>\<^verbatim>\<open>createLobby\<close>: the address of the new lobby object.\<close>

definition createLobby :: "string \<Rightarrow> jsval \<Rightarrow> server \<Rightarrow> js_error + nat \<times> server" where
  "createLobby hostId' hostName s =
     (case generateLobbyCode (mathRandom s) (map fst (lobbies s)) (rpos s) of
        None \<Rightarrow> Inl NoReturn
      | Some (c, k) \<Rightarrow>
          Inr (nextObj s,
               s\<lparr>objs := (objs s)(nextObj s := new_lobby c hostId' hostName),
                 nextObj := nextObj s + 1,
                 lobbies := map_set c (nextObj s) (lobbies s),
                 rpos := k\<rparr>))"

definition on_create_lobby :: "nat \<Rightarrow> jsval \<Rightarrow> server \<Rightarrow> js_error + server" where
  "on_create_lobby ws msg s =
     (let (i, s1) = generateId s
      in case slice0 20 (js_or (field msg ''name'') (JStr ''Player'')) of
           Inl e \<Rightarrow> Inl e
         | Inr nm \<Rightarrow>
             (case createLobby i nm s1 of
                Inl e \<Rightarrow> Inl e
              | Inr (a, s2) \<Rightarrow>
                  (let c = code (objs s2 a);
                       s3 = s2\<lparr>clients := map_set ws \<lparr>cid = i, lobbyCode = c, cname = nm\<rparr> (clients s2)\<rparr>
                   in Inr (broadcastLobbyState a (sendTo ws (Joined i c True) s3)))))"

definition on_join_lobby :: "nat \<Rightarrow> jsval \<Rightarrow> server \<Rightarrow> js_error + server" where
  "on_join_lobby ws msg s =
     (case code_of msg of
        Inl e \<Rightarrow> Inl e
      | Inr None \<Rightarrow> Inr (sendTo ws (Error ''Lobby not found'') s)
      | Inr (Some c) \<Rightarrow>
          (case map_of (lobbies s) c of
             None \<Rightarrow> Inr (sendTo ws (Error ''Lobby not found'') s)
           | Some a \<Rightarrow>
               if phase (objs s a) \<noteq> Lobby
               then Inr (sendTo ws (Error ''Game already in progress'') s)
               else if 10 \<le> length (players (objs s a))
               then Inr (sendTo ws (Error ''Lobby is full (max 10)'') s)
               else
                 (let (i, s1) = generateId s
                  in case slice0 20 (js_or (field msg ''name'') (JStr ''Player'')) of
                       Inl e \<Rightarrow> Inl e
                     | Inr nm \<Rightarrow>
                         (let s2 = upd a (\<lambda>l. l\<lparr>players := players l @
                                     [\<lparr>pid = i, name = nm, score = 0, connected_flag = True\<rparr>]\<rparr>) s1;
                              s3 = s2\<lparr>clients :=
                                     map_set ws \<lparr>cid = i, lobbyCode = c, cname = nm\<rparr> (clients s2)\<rparr>
                          in Inr (broadcastLobbyState a (sendTo ws (Joined i c False) s3))))))"

definition on_start_game :: "nat \<Rightarrow> server \<Rightarrow> js_error + server" where
  "on_start_game ws s =
     (case map_of (clients s) ws of
        None \<Rightarrow> Inr s
      | Some client \<Rightarrow>
          (case map_of (lobbies s) (lobbyCode client) of
             None \<Rightarrow> Inr s
           | Some a \<Rightarrow>
               if hostId (objs s a) \<noteq> cid client then Inr s
               else if length (players (objs s a)) < 3
               then Inr (sendTo ws (Error ''Need at least 3 players'') s)
               else startGame a s))"

definition on_submit_question :: "nat \<Rightarrow> jsval \<Rightarrow> server \<Rightarrow> js_error + server" where
  "on_submit_question ws msg s =
     (case map_of (clients s) ws of
        None \<Rightarrow> Inr s
      | Some client \<Rightarrow>
          (case map_of (lobbies s) (lobbyCode client) of
             None \<Rightarrow> Inr s
           | Some a \<Rightarrow>
               if phase (objs s a) \<noteq> Question then Inr s
               else
                 (case getGuesser (objs s a) of
                    None \<Rightarrow> Inl TypeError
                  | Some guesser \<Rightarrow>
                      if pid guesser \<noteq> cid client then Inr s
                      else
                        (case slice0 200 (js_or (field msg ''question'') (JStr [])) of
                           Inl e \<Rightarrow> Inl e
                         | Inr q \<Rightarrow>
                             startAnswerPhase a
                               (clearTimer a (upd a (\<lambda>l. l\<lparr>currentQuestion := q\<rparr>) s))))))"

definition on_submit_answer :: "nat \<Rightarrow> jsval \<Rightarrow> server \<Rightarrow> js_error + server" where
  "on_submit_answer ws msg s =
     (case map_of (clients s) ws of
        None \<Rightarrow> Inr s
      | Some client \<Rightarrow>
          (case map_of (lobbies s) (lobbyCode client) of
             None \<Rightarrow> Inr s
           | Some a \<Rightarrow>
               if phase (objs s a) \<noteq> Answering then Inr s
               else
                 (case getGuesser (objs s a) of
                    None \<Rightarrow> Inl TypeError
                  | Some guesser \<Rightarrow>
                      if cid client = pid guesser then Inr s
                      else
                        (case slice0 300 (js_or (field msg ''answer'') (JStr [])) of
                           Inl e \<Rightarrow> Inl e
                         | Inr t \<Rightarrow>
                             (let s1 = sendTo ws AnswerSubmitted
                                    (upd a (\<lambda>l. l\<lparr>answers := map_set (cid client) t (answers l)\<rparr>) s);
                                  l = objs s1 a;
                                  answerers = getAnswerers l
                              in if list_all (\<lambda>p. map_has (answers l) (pid p)) answerers
                                 then startRevealPhase a (clearTimer a s1)
                                 else Inr (broadcastToLobby a
                                        (AnswerProgress (length (answers l)) (length answerers)) s1))))))"

definition on_next_reveal :: "nat \<Rightarrow> server \<Rightarrow> js_error + server" where
  "on_next_reveal ws s =
     (case map_of (clients s) ws of
        None \<Rightarrow> Inr s
      | Some client \<Rightarrow>
          (case map_of (lobbies s) (lobbyCode client) of
             None \<Rightarrow> Inr s
           | Some a \<Rightarrow>
               if phase (objs s a) \<noteq> Reveal then Inr s
               else
                 (case getGuesser (objs s a) of
                    None \<Rightarrow> Inl TypeError
                  | Some guesser \<Rightarrow>
                      if pid guesser \<noteq> cid client then Inr s
                      else
                        (let s1 = upd a (\<lambda>l. l\<lparr>revealIndex := revealIndex l + 1\<rparr>) s
                         in if length (shuffledAnswers (objs s1 a)) \<le> revealIndex (objs s1 a)
                            then startGuessingPhase a s1
                            else Inr (sendRevealAnswer a s1)))))"

definition on_submit_guesses :: "nat \<Rightarrow> jsval \<Rightarrow> server \<Rightarrow> js_error + server" where
  "on_submit_guesses ws msg s =
     (case map_of (clients s) ws of
        None \<Rightarrow> Inr s
      | Some client \<Rightarrow>
          (case map_of (lobbies s) (lobbyCode client) of
             None \<Rightarrow> Inr s
           | Some a \<Rightarrow>
               if phase (objs s a) \<noteq> Guessing then Inr s
               else
                 (case getGuesser (objs s a) of
                    None \<Rightarrow> Inl TypeError
                  | Some guesser \<Rightarrow>
                      if pid guesser \<noteq> cid client then Inr s
                      else
                        scoreGuesses a
                          (clearTimer a
                             (upd a (\<lambda>l. l\<lparr>guesses :=
                                new_Map (entries (js_or (field msg ''guesses'') (JObj [])))\<rparr>) s)))))"

text \<open>The two \<^verbatim>\<open>votes.<category>.set(client.id, msg.answerId)\<close> of the vote handler.\<close>

definition record_vote :: "string \<Rightarrow> jsval \<Rightarrow> votes \<Rightarrow> votes" where
  "record_vote voter msg v =
     (let v1 = (if field msg ''category'' = JStr ''best'' \<and> truthy (field msg ''answerId'')
                then v\<lparr>best := map_set voter (field msg ''answerId'') (best v)\<rparr> else v)
      in if field msg ''category'' = JStr ''funniest'' \<and> truthy (field msg ''answerId'')
         then v1\<lparr>funniest := map_set voter (field msg ''answerId'') (funniest v1)\<rparr> else v1)"

definition allVoted :: "lobby \<Rightarrow> bool" where
  "allVoted l =
     list_all (\<lambda>p. map_has (best (votes l)) (pid p) \<and> map_has (funniest (votes l)) (pid p))
       (players l)"

definition on_vote :: "nat \<Rightarrow> jsval \<Rightarrow> server \<Rightarrow> js_error + server" where
  "on_vote ws msg s =
     (case map_of (clients s) ws of
        None \<Rightarrow> Inr s
      | Some client \<Rightarrow>
          (case map_of (lobbies s) (lobbyCode client) of
             None \<Rightarrow> Inr s
           | Some a \<Rightarrow>
               if phase (objs s a) \<noteq> Voting then Inr s
               else
                 (let s1 = upd a (\<lambda>l. l\<lparr>votes := record_vote (cid client) msg (votes l)\<rparr>) s
                  in if allVoted (objs s1 a) then Inr (tallyVotes a (clearTimer a s1))
                     else Inr s1)))"

definition on_next_turn :: "nat \<Rightarrow> server \<Rightarrow> js_error + server" where
  "on_next_turn ws s =
     (case map_of (clients s) ws of
        None \<Rightarrow> Inr s
      | Some client \<Rightarrow>
          (case map_of (lobbies s) (lobbyCode client) of
             None \<Rightarrow> Inr s
           | Some a \<Rightarrow>
               if phase (objs s a) \<noteq> Results then Inr s
               else if hostId (objs s a) \<noteq> cid client then Inr s
               else nextTurn a s))"

definition on_play_again :: "nat \<Rightarrow> server \<Rightarrow> js_error + server" where
  "on_play_again ws s =
     (case map_of (clients s) ws of
        None \<Rightarrow> Inr s
      | Some client \<Rightarrow>
          (case map_of (lobbies s) (lobbyCode client) of
             None \<Rightarrow> Inr s
           | Some a \<Rightarrow>
               if hostId (objs s a) \<noteq> cid client then Inr s
               else
                 Inr (broadcastLobbyState a
                        (broadcastToLobby a PhaseLobby
                           (upd a (\<lambda>l. l\<lparr>phase := Lobby,
                                      players := map (\<lambda>p. p\<lparr>score := 0\<rparr>) (players l)\<rparr>) s)))))"

text \<open>
  \<^verbatim>\<open>handleMessage(ws, data)\<close>; \<open>data\<close> is what \<^verbatim>\<open>JSON.parse\<close> made of the text, \<open>None\<close>
  when it threw. The \<^verbatim>\<open>switch\<close> has no default: any other type does nothing.
\<close>

definition handleMessage :: "nat \<Rightarrow> jsval option \<Rightarrow> server \<Rightarrow> js_error + server" where
  "handleMessage ws data s =
     (case data of
        None \<Rightarrow> Inr s
      | Some msg \<Rightarrow>
          (case get_prop msg ''type'' of
             Inl e \<Rightarrow> Inl e
           | Inr ty \<Rightarrow>
               if ty = JStr ''create_lobby'' then on_create_lobby ws msg s
               else if ty = JStr ''join_lobby'' then on_join_lobby ws msg s
               else if ty = JStr ''start_game'' then on_start_game ws s
               else if ty = JStr ''submit_question'' then on_submit_question ws msg s
               else if ty = JStr ''submit_answer'' then on_submit_answer ws msg s
               else if ty = JStr ''next_reveal'' then on_next_reveal ws s
               else if ty = JStr ''submit_guesses'' then on_submit_guesses ws msg s
               else if ty = JStr ''vote'' then on_vote ws msg s
               else if ty = JStr ''next_turn'' then on_next_turn ws s
               else if ty = JStr ''play_again'' then on_play_again ws s
               else Inr s))"

subsection \<open>Disconnection\<close>

text \<open>\<^verbatim>\<open>players.find(p => p.id === client.id).connected = false\<close>, if there is one.\<close>

fun mark_disconnected :: "string \<Rightarrow> player list \<Rightarrow> player list" where
  "mark_disconnected i [] = []"
| "mark_disconnected i (p # ps) =
     (if pid p = i then p\<lparr>connected_flag := False\<rparr> # ps else p # mark_disconnected i ps)"

definition map_delete :: "'k \<Rightarrow> ('k, 'v) jsmap \<Rightarrow> ('k, 'v) jsmap" where
  "map_delete k m = filter (\<lambda>e. fst e \<noteq> k) m"

definition handleDisconnect :: "nat \<Rightarrow> server \<Rightarrow> server" where
  "handleDisconnect ws s =
     (case map_of (clients s) ws of
        None \<Rightarrow> s
      | Some client \<Rightarrow>
          (let s3 =
             (case map_of (lobbies s) (lobbyCode client) of
                None \<Rightarrow> s
              | Some a \<Rightarrow>
                  (let s1 = broadcastLobbyState a
                         (upd a (\<lambda>l. l\<lparr>players := mark_disconnected (cid client) (players l)\<rparr>) s)
                   in if list_all (\<lambda>p. \<not> connected_flag p) (players (objs s1 a))
                      then (let s2 = clearTimer a s1
                            in s2\<lparr>lobbies := map_delete (code (objs s2 a)) (lobbies s2)\<rparr>)
                      else s1))
           in s3\<lparr>clients := map_delete ws (clients s3)\<rparr>))"

subsection \<open>The event loop\<close>

text \<open>
  What can happen to the process: a connection opens, a text message arrives on one, a
  connection closes or fails, a pending timeout fires, the clock moves on. Each runs to
  completion before the next. \<open>outbox\<close> is what the event at hand has sent so far, so every
  event starts with an empty one.
\<close>

datatype input =
    Connect nat
  | Message nat "jsval option"
  | Disconnect nat
  | Fire nat
  | Tick nat

fun handle :: "input \<Rightarrow> server \<Rightarrow> js_error + server" where
  "handle (Connect ws) s = Inr (s\<lparr>readyState := (readyState s)(ws := 1)\<rparr>)"
| "handle (Message ws data) s = handleMessage ws data s"
| "handle (Disconnect ws) s = Inr (handleDisconnect ws (s\<lparr>readyState := (readyState s)(ws := 3)\<rparr>))"
| "handle (Fire h) s = fire h s"
| "handle (Tick d) s = Inr (s\<lparr>now := now s + d\<rparr>)"

definition step :: "input \<Rightarrow> server \<Rightarrow> js_error + server" where
  "step i s = handle i (s\<lparr>outbox := []\<rparr>)"

text \<open>A sequence of events, as long as the process lives.\<close>

fun run :: "input list \<Rightarrow> server \<Rightarrow> js_error + server" where
  "run [] s = Inr s"
| "run (i # is) s = (case step i s of Inl e \<Rightarrow> Inl e | Inr s' \<Rightarrow> run is s')"

text \<open>The cell of a lobby object that was never allocated.\<close>

definition no_lobby :: lobby where
  "no_lobby = new_lobby [] [] JUndefined"

text \<open>The process at start, for given random sources and a given clock.\<close>

definition initial :: "(nat \<Rightarrow> nat) \<Rightarrow> (nat \<Rightarrow> byte) \<Rightarrow> nat \<Rightarrow> server" where
  "initial rnd rb t =
     \<lparr>objs = (\<lambda>a. no_lobby), nextObj = 0, lobbies = [], clients = [], readyState = (\<lambda>ws. 0),
      timeouts = [], nextHandle = 0, outbox = [], now = t, mathRandom = rnd, rpos = 0,
      randomBytes = rb, epos = 0\<rparr>"

inductive reachable :: "server \<Rightarrow> bool" where
  at_start: "reachable (initial rnd rb t)"
| after_step: "reachable s \<Longrightarrow> step i s = Inr s' \<Longrightarrow> reachable s'"

section \<open>A sample game\<close>

text \<open>
  The process started with \<^verbatim>\<open>Math.random\<close> drawing 0, 1, 2, ... and \<^verbatim>\<open>randomBytes\<close>
  returning the bytes 0, 1, 2, ...; three connections open, the first creates a lobby (its
  code comes out as ABCDE), the other two join it.
\<close>

definition msg :: "string \<Rightarrow> (string \<times> jsval) list \<Rightarrow> jsval option" where
  "msg ty kvs = Some (JObj ((''type'', JStr ty) # kvs))"

definition boot :: server where
  "boot = initial (\<lambda>k. k) (\<lambda>k. of_nat k) 0"

definition three_join :: "input list" where
  "three_join =
     [Connect 1, Connect 2, Connect 3,
      Message 1 (msg ''create_lobby'' [(''name'', JStr ''Ann'')]),
      Message 2 (msg ''join_lobby'' [(''name'', JStr ''Bob''), (''code'', JStr ''abcde'')]),
      Message 3 (msg ''join_lobby'' [(''name'', JStr ''Cat''), (''code'', JStr '' ABCDE '')])]"

definition ann :: string where "ann = ''0001020304050607''"
definition bob :: string where "bob = ''08090a0b0c0d0e0f''"
definition cat :: string where "cat = ''1011121314151617''"

definition three_players :: "player list" where
  "three_players =
     [\<lparr>pid = ann, name = JStr ''Ann'', score = 0, connected_flag = True\<rparr>,
      \<lparr>pid = bob, name = JStr ''Bob'', score = 0, connected_flag = True\<rparr>,
      \<lparr>pid = cat, name = JStr ''Cat'', score = 0, connected_flag = True\<rparr>]"

definition three_clients :: "(nat, client) jsmap" where
  "three_clients =
     [(1, \<lparr>cid = ann, lobbyCode = ''ABCDE'', cname = JStr ''Ann''\<rparr>),
      (2, \<lparr>cid = bob, lobbyCode = ''ABCDE'', cname = JStr ''Bob''\<rparr>),
      (3, \<lparr>cid = cat, lobbyCode = ''ABCDE'', cname = JStr ''Cat''\<rparr>)]"

text \<open>The process after \<open>three_join\<close> (lemma \<open>run_three_join\<close>).\<close>

definition lobby_of_three :: server where
  "lobby_of_three =
     \<lparr>objs = (\<lambda>a. no_lobby)(0 := (new_lobby ''ABCDE'' ann (JStr ''Ann''))\<lparr>players := three_players\<rparr>),
      nextObj = 1, lobbies = [(''ABCDE'', 0)], clients = three_clients,
      readyState = (\<lambda>ws. 0)(1 := 1, 2 := 1, 3 := 1), timeouts = [], nextHandle = 0,
      outbox = [(3, Joined cat ''ABCDE'' False), (1, LobbyUpdate three_players ann ''ABCDE''),
                (2, LobbyUpdate three_players ann ''ABCDE''), (3, LobbyUpdate three_players ann ''ABCDE'')],
      now = 0, mathRandom = (\<lambda>k. k), rpos = 5, randomBytes = (\<lambda>k. of_nat k), epos = 24\<rparr>"

text \<open>
  The game goes on: the host starts it (the first guesser is Bob), Bob asks his question,
  Ann answers. The process is then \<open>in_answering\<close> (lemma \<open>run_to_answering\<close>), the answer
  timer pending.
\<close>

definition to_answering :: "input list" where
  "to_answering =
     [Message 1 (msg ''start_game'' []),
      Message 2 (msg ''submit_question'' [(''question'', JStr ''Q?'')]),
      Message 1 (msg ''submit_answer'' [(''answer'', JStr ''tea'')])]"

definition in_answering :: server where
  "in_answering =
     lobby_of_three
       \<lparr>objs := (objs lobby_of_three)
          (0 := (objs lobby_of_three 0)
             \<lparr>phase := Answering,
              guesserOrder := [bob, ann, cat, cat, ann, bob, bob, cat, ann],
              currentQuestion := JStr ''Q?'', answers := [(ann, JStr ''tea'')],
              timer := Some 1, timerEnd := Some 60000\<rparr>),
        timeouts := [(1, 0, AnswerTimeout)], nextHandle := 2,
        outbox := [(1, AnswerSubmitted), (1, AnswerProgress 1 2), (2, AnswerProgress 1 2),
                   (3, AnswerProgress 1 2)],
        rpos := 11\<rparr>"

text \<open>
  Cat answers too, Bob has the two answers revealed and guesses Ann for both. The process
  is then \<open>in_voting\<close> (lemma \<open>run_to_voting\<close>), the vote timer pending.
\<close>

definition tea :: answer where
  "tea = \<lparr>aid = ''18191a1b1c1d1e1f'', atext = JStr ''tea'', playerId = ann\<rparr>"

definition rum :: answer where
  "rum = \<lparr>aid = ''2021222324252627'', atext = JStr ''rum'', playerId = cat\<rparr>"

definition to_voting :: "input list" where
  "to_voting =
     [Message 3 (msg ''submit_answer'' [(''answer'', JStr ''rum'')]),
      Message 2 (msg ''next_reveal'' []),
      Message 2 (msg ''next_reveal'' []),
      Message 2 (msg ''submit_guesses''
        [(''guesses'', JObj [(aid tea, JStr ann), (aid rum, JStr ann)])])]"

definition in_voting :: server where
  "in_voting =
     in_answering
       \<lparr>objs := (objs in_answering)
          (0 := (objs in_answering 0)
             \<lparr>players := add_score bob 1 three_players, phase := Voting,
              answers := [(ann, JStr ''tea''), (cat, JStr ''rum'')], revealIndex := 2,
              guesses := [(aid tea, JStr ann), (aid rum, JStr ann)],
              timer := Some 3, timerEnd := Some 20000, shuffledAnswers := [tea, rum],
              guessResults := Some \<lparr>correct = 1, total_n = 2, results =
                [\<lparr>answerId = aid tea, answerText = JStr ''tea'', actualPlayer = (ann, JStr ''Ann''),
                   guessedPlayer = Some (ann, JStr ''Ann''), isCorrect = True\<rparr>,
                 \<lparr>answerId = aid rum, answerText = JStr ''rum'', actualPlayer = (cat, JStr ''Cat''),
                   guessedPlayer = Some (ann, JStr ''Ann''), isCorrect = False\<rparr>]\<rparr>\<rparr>),
        timeouts := [(3, 0, VoteTimeout)], nextHandle := 4,
        outbox :=
          map (\<lambda>ws. (ws, PhaseVoting (JStr ''Q?'') [id_text tea, id_text rum] (bob, JStr ''Bob'')))
            [1, 2, 3] @
          map (\<lambda>ws. (ws, Timer 20 20000)) [1, 2, 3],
        rpos := 12, epos := 40\<rparr>"

text \<open>A vote for an answer in a category.\<close>

definition vote_for :: "string \<Rightarrow> answer \<Rightarrow> jsval option" where
  "vote_for c x = msg ''vote'' [(''category'', JStr c), (''answerId'', JStr (aid x))]"

text \<open>
  Cat's connection closes during the vote. The process is then \<open>cat_gone\<close> (lemma
  \<open>step_cat_gone\<close>): Cat is still in the player list, no connection has that id.
\<close>

definition cat_gone :: server where
  "cat_gone =
     in_voting
       \<lparr>objs := (objs in_voting)
          (0 := (objs in_voting 0)
             \<lparr>players := mark_disconnected cat (add_score bob 1 three_players)\<rparr>),
        clients := map_delete 3 three_clients,
        readyState := (readyState in_voting)(3 := 3),
        outbox := map (\<lambda>ws. (ws, LobbyUpdate (mark_disconnected cat (add_score bob 1 three_players))
                      ann ''ABCDE'')) [1, 2]\<rparr>"

text \<open>
  Or all three stay and vote: after \<open>five_votes\<close> the process is \<open>one_vote_short\<close> (lemma
  \<open>run_five_votes\<close>), Cat's vote for the funniest answer is the one missing.
\<close>

definition five_votes :: "input list" where
  "five_votes =
     [Message 1 (vote_for ''best'' rum), Message 1 (vote_for ''funniest'' rum),
      Message 2 (vote_for ''best'' tea), Message 2 (vote_for ''funniest'' rum),
      Message 3 (vote_for ''best'' tea)]"

definition one_vote_short :: server where
  "one_vote_short =
     in_voting
       \<lparr>objs := (objs in_voting)
          (0 := (objs in_voting 0)
             \<lparr>votes := \<lparr>best = [(ann, JStr (aid rum)), (bob, JStr (aid tea)), (cat, JStr (aid tea))],
                        funniest = [(ann, JStr (aid rum)), (bob, JStr (aid rum))]\<rparr>\<rparr>),
        outbox := []\<rparr>"

section \<open>The words of the claims\<close>

text \<open>
  A guess is right when the map of guesses has an entry for the answer and the entry is the
  id of the author.
\<close>

definition guessed_right :: "lobby \<Rightarrow> answer \<Rightarrow> bool" where
  "guessed_right l x = (map_of (guesses l) (aid x) = Some (JStr (playerId x)))"

text \<open>
  The tally in the words of the specification: the ids voted for, in the order of their
  first vote, and the first of them that no id has more votes than.
\<close>

definition first_voted :: "jsval list \<Rightarrow> jsval list" where
  "first_voted vs = rev (remdups (rev vs))"

definition most_voted :: "jsval list \<Rightarrow> jsval option" where
  "most_voted vs =
     find (\<lambda>v. list_all (\<lambda>u. count_list vs u \<le> count_list vs v) vs) (first_voted vs)"

text \<open>
  The lobby a connection is the host of: the lobby its client entry names, when that lobby
  exists and its \<^verbatim>\<open>hostId\<close> is the client's id. This is the test the handlers of
  \<^verbatim>\<open>start_game\<close> and \<^verbatim>\<open>play_again\<close> make before they act.
\<close>

definition host_of :: "server \<Rightarrow> nat \<Rightarrow> nat option" where
  "host_of s ws =
     (case map_of (clients s) ws of
        None \<Rightarrow> None
      | Some client \<Rightarrow>
          (case map_of (lobbies s) (lobbyCode client) of
             None \<Rightarrow> None
           | Some a \<Rightarrow> if hostId (objs s a) = cid client then Some a else None))"

text \<open>The timeouts pending for the lobby at \<open>a\<close>, by their handles.\<close>

definition pending :: "server \<Rightarrow> nat \<Rightarrow> nat list" where
  "pending s a = map fst (filter (\<lambda>t. fst (snd t) = a) (timeouts s))"

text \<open>
  The timeouts of the event loop and the \<^verbatim>\<open>timer\<close> fields of the lobbies agree: handles are
  given once and are below the next one, timeouts and registered lobbies are about allocated
  lobby objects, and what is pending for a lobby is the handle in its \<^verbatim>\<open>timer\<close> field, or
  nothing when the field is \<^verbatim>\<open>null\<close>.
\<close>

definition timers_ok :: "server \<Rightarrow> bool" where
  "timers_ok s =
     (distinct (map fst (timeouts s))
      \<and> list_all (\<lambda>t. fst t < nextHandle s \<and> fst (snd t) < nextObj s) (timeouts s)
      \<and> list_all (\<lambda>e. snd e < nextObj s) (lobbies s)
      \<and> (\<forall>a. pending s a = (case timer (objs s a) of None \<Rightarrow> [] | Some h \<Rightarrow> [h])))"

text \<open>The same, for a lobby object that is allocated.\<close>

definition ok_at :: "server \<Rightarrow> nat \<Rightarrow> bool" where
  "ok_at s a = (timers_ok s \<and> a < nextObj s)"

text \<open>
  The example of the specification for \<^verbatim>\<open>scoreGuesses\<close>: two answers, by Ann and by Bob,
  both guessed to be Bob's; Cat is the guesser.
\<close>

definition guess_example :: server where
  "guess_example =
     upd 0 (\<lambda>l. l\<lparr>phase := Guessing, guesserOrder := [cat], currentGuesserIdx := 0,
        shuffledAnswers := [\<lparr>aid = ''a1'', atext = JStr ''tea'', playerId = ann\<rparr>,
                            \<lparr>aid = ''a2'', atext = JStr ''rum'', playerId = bob\<rparr>],
        guesses := [(''a1'', JStr bob), (''a2'', JStr bob)]\<rparr>) lobby_of_three"

text \<open>
  The example of the specification for \<^verbatim>\<open>tallyVotes\<close>: two votes for the first answer and
  one for the second as the best, no vote for the funniest.
\<close>

definition vote_example :: server where
  "vote_example =
     upd 0 (\<lambda>l. l\<lparr>phase := Voting, guesserOrder := [cat], currentGuesserIdx := 0,
        shuffledAnswers := [\<lparr>aid = ''a1'', atext = JStr ''tea'', playerId = ann\<rparr>,
                            \<lparr>aid = ''a2'', atext = JStr ''rum'', playerId = bob\<rparr>],
        votes := \<lparr>best = [(ann, JStr ''a1''), (bob, JStr ''a1''), (cat, JStr ''a2'')],
                  funniest = []\<rparr>\<rparr>) lobby_of_three"

chapter \<open>Properties\<close>

section \<open>Frame round trip\<close>

declare frame_loop.simps [simp del]

lemma toDouble_small: "n < 2 ^ 53 \<Longrightarrow> toDouble n = n"
  by (simp add: toDouble_def)

lemma frame_loop_short: "length b < 2 \<Longrightarrow> frame_loop b = ([], b)"
  by (subst frame_loop.simps) simp

lemma low7_of_nat:
  assumes "n < 126"
  shows "unat ((of_nat n :: byte) AND 0x7f) = n"
proof -
  have "unat ((of_nat n :: byte) AND 0x7f) = unat (of_nat n :: byte) AND unat (0x7f :: byte)"
    by (simp only: unsigned_and_eq)
  also have "unat (of_nat n :: byte) = n"
    using assms by (simp add: unat_of_nat)
  also have "unat (0x7f :: byte) = mask 7"
    by (simp add: mask_eq_exp_minus_1)
  also have "n AND mask 7 = n"
    using assms by (simp add: take_bit_eq_mask [symmetric] take_bit_nat_eq_self_iff)
  finally show ?thesis .
qed

lemma mask_bit_of_nat:
  assumes "n < 128"
  shows "(of_nat n :: byte) AND 0x80 = 0"
proof -
  have "unat ((of_nat n :: byte) AND 0x80) = unat (of_nat n :: byte) AND unat (0x80 :: byte)"
    by (simp only: unsigned_and_eq)
  also have "unat (of_nat n :: byte) = n"
    using assms by (simp add: unat_of_nat)
  also have "unat (0x80 :: byte) = 2 ^ 7"
    by simp
  also have "n AND 2 ^ 7 = 0"
  proof -
    have "\<not> bit n 7"
      using assms by (simp add: bit_iff_odd)
    then show ?thesis
      using and_exp_eq_0_iff_not_bit [of n 7] by blast
  qed
  finally show ?thesis
    by (simp add: unat_eq_0)
qed

lemma read_write_16:
  assumes "n < 65536"
  shows "readUInt16BE (x # y # writeUInt16BE n @ p) 2 = n"
proof -
  have hi: "unat (of_nat (n div 256) :: byte) = n div 256"
    using assms by (simp add: unat_of_nat)
  have lo: "unat (of_nat n :: byte) = n mod 256"
    by (simp add: unat_of_nat)
  show ?thesis
    by (simp add: readUInt16BE_def writeUInt16BE_def hi lo)
qed

lemma read_write_64:
  assumes "n < 2 ^ 64"
  shows "readBigUInt64BE (x # y # writeBigUInt64BE n @ p) 2 = n"
proof -
  have b: "unat (of_nat k :: byte) = k mod 256" for k
    by (simp add: unat_of_nat)
  have s: "k div (256 * m) * 256 + k div m mod 256 = k div m" for k m :: nat
    by (simp add: div_mult2_eq mult.commute [of 256 m])
  have "n div 256 ^ 7 < 256"
    using assms by (simp add: less_mult_imp_div_less)
  then have top: "n div 256 ^ 7 mod 256 = n div 256 ^ 7"
    by simp
  have e: "readBigUInt64BE (x # y # writeBigUInt64BE n @ p) 2 =
     (((((((n div 256 ^ 7 mod 256) * 256 + n div 256 ^ 6 mod 256) * 256 + n div 256 ^ 5 mod 256) * 256
        + n div 256 ^ 4 mod 256) * 256 + n div 256 ^ 3 mod 256) * 256 + n div 256 ^ 2 mod 256) * 256
        + n div 256 mod 256) * 256 + n mod 256"
    by (simp add: readBigUInt64BE_def writeBigUInt64BE_def b del: power_numeral)
  show ?thesis
    unfolding e top
    using s [of n "256 ^ 6"] s [of n "256 ^ 5"] s [of n "256 ^ 4"] s [of n "256 ^ 3"]
      s [of n "256 ^ 2"] s [of n 256] s [of n 1]
    by (simp del: power_numeral add: power_numeral_reduce)
qed

lemma length_writeUInt16BE: "length (writeUInt16BE n) = 2"
  by (simp add: writeUInt16BE_def)

lemma length_writeBigUInt64BE: "length (writeBigUInt64BE n) = 8"
  by (simp add: writeBigUInt64BE_def)

lemma text_opcode: "(0x81 :: byte) AND 0x0f = 1"
  by simp

lemma roundtrip_short:
  assumes "length p < 126"
  shows "frame_loop (0x81 # of_nat (length p) # p) = ([Dispatch p], [])"
proof -
  have h: "frame_header (0x81 # of_nat (length p) # p) = Some (length p, 2)"
    using assms by (simp add: frame_header_def low7_of_nat)
  have m: "(of_nat (length p) :: byte) AND 0x80 = 0"
    using assms by (simp add: mask_bit_of_nat)
  have t: "toDouble (Suc (Suc (length p))) = Suc (Suc (length p))"
    using assms by (simp add: toDouble_small)
  show ?thesis
    by (subst frame_loop.simps) (simp add: h m t text_opcode frame_loop_short Let_def)
qed

lemma roundtrip_medium:
  assumes "126 \<le> length p" "length p < 65536"
  shows "frame_loop (0x81 # 126 # writeUInt16BE (length p) @ p) = ([Dispatch p], [])"
proof -
  have h: "frame_header (0x81 # 126 # writeUInt16BE (length p) @ p) = Some (length p, 4)"
    using assms by (simp add: frame_header_def read_write_16 length_writeUInt16BE)
  have t: "toDouble (4 + length p) = 4 + length p"
    using assms by (simp add: toDouble_small)
  show ?thesis
    by (subst frame_loop.simps)
      (simp add: h t text_opcode frame_loop_short length_writeUInt16BE Let_def)
qed

lemma roundtrip_long:
  assumes "65536 \<le> length p" "length p + 10 \<le> kMaxLength"
  shows "frame_loop (0x81 # 127 # writeBigUInt64BE (length p) @ p) = ([Dispatch p], [])"
proof -
  have l: "length p < 2 ^ 53 - 10" "length p < 2 ^ 64"
    using assms by (simp_all add: kMaxLength_def)
  have h: "frame_header (0x81 # 127 # writeBigUInt64BE (length p) @ p) = Some (length p, 10)"
    using assms l
    by (simp add: frame_header_def read_write_64 length_writeBigUInt64BE toDouble_small)
  have t: "toDouble (10 + length p) = 10 + length p"
    using l by (simp add: toDouble_small)
  show ?thesis
    by (subst frame_loop.simps)
      (simp add: h t text_opcode frame_loop_short length_writeBigUInt64BE Let_def)
qed

text \<open>
  Claim C8. A payload sent by \<^verbatim>\<open>ws.send\<close> as one unmasked text frame and read back by the
  \<^verbatim>\<open>'data'\<close> handler (from an empty buffer) is handed to the dispatcher byte for byte, and
  nothing is left in the buffer. The frame carries the length in the second byte below 126,
  after the marker 126 on two bytes below 65536, after the marker 127 on eight bytes
  otherwise. The payload is one whose frame (at most ten bytes longer) fits a
  \<^verbatim>\<open>Buffer\<close>.
\<close>

theorem frame_roundtrip:
  assumes "length p + 10 \<le> kMaxLength"
  shows "\<exists>frame. ws_send 1 p = Inr (Some frame) \<and> on_data [] frame = ([Dispatch p], [])
     \<and> frame =
         (if length p < 126 then [0x81, of_nat (length p)]
          else if length p < 65536 then [0x81, 126] @ writeUInt16BE (length p)
          else [0x81, 127] @ writeBigUInt64BE (length p)) @ p"
proof -
  have big: "length p < 2 ^ 64" "\<not> kMaxLength < 10 + length p"
    using assms by (simp_all add: kMaxLength_def)
  consider "length p < 126" | "126 \<le> length p" "length p < 65536" | "65536 \<le> length p"
    by linarith
  then show ?thesis
  proof cases
    case 1
    then show ?thesis
      by (simp add: ws_send_def on_data_def roundtrip_short)
  next
    case 2
    then show ?thesis
      by (simp add: ws_send_def on_data_def roundtrip_medium)
  next
    case 3
    then show ?thesis
      using big assms by (simp add: ws_send_def on_data_def roundtrip_long)
  qed
qed

text \<open>The three tiers, at payloads of 10, 200 and 70000 bytes.\<close>

theorem frame_roundtrip_witness:
  "length (replicate 10 (65 :: byte)) + 10 \<le> kMaxLength
   \<and> length (replicate 200 (65 :: byte)) + 10 \<le> kMaxLength
   \<and> length (replicate 70000 (65 :: byte)) + 10 \<le> kMaxLength
   \<and> (\<exists>frame. ws_send 1 (replicate 10 65) = Inr (Some frame)
         \<and> on_data [] frame = ([Dispatch (replicate 10 65)], [])
         \<and> frame = [0x81, 10] @ replicate 10 65)
   \<and> (\<exists>frame. ws_send 1 (replicate 200 65) = Inr (Some frame)
         \<and> on_data [] frame = ([Dispatch (replicate 200 65)], [])
         \<and> frame = [0x81, 126, 0, 200] @ replicate 200 65)
   \<and> (\<exists>frame. ws_send 1 (replicate 70000 65) = Inr (Some frame)
         \<and> on_data [] frame = ([Dispatch (replicate 70000 65)], [])
         \<and> frame = [0x81, 127, 0, 0, 0, 0, 0, 1, 0x11, 0x70] @ replicate 70000 65)"
proof -
  have a: "length (replicate 10 (65 :: byte)) + 10 \<le> kMaxLength"
    and b: "length (replicate 200 (65 :: byte)) + 10 \<le> kMaxLength"
    and c: "length (replicate 70000 (65 :: byte)) + 10 \<le> kMaxLength"
    by (simp_all add: kMaxLength_def)
  show ?thesis
    using a b c frame_roundtrip [OF a] frame_roundtrip [OF b] frame_roundtrip [OF c]
    by (simp add: writeUInt16BE_def writeBigUInt64BE_def)
qed

section \<open>The handshake\<close>

lemma upt_80: "[0..<80] = 0 # 1 # [2..<80]"
  by (simp add: upt_rec)

lemma replicate_numeral: "replicate (numeral k) x = x # replicate (pred_numeral k) x"
  by (simp add: numeral_eq_Suc)

lemmas sha1_eval = sha1_def sha1_block_def upt_80 replicate_numeral sha1_pad_def utf8_def
  sha1_f_def sha1_k_def not32_def rotl32_def add32_def b64_def b64_chars_def

text \<open>
  The digest and its encoding, as written above from the standards, give the sample
  handshake of RFC 6455 when the key is followed by the GUID of RFC 6455.
\<close>

lemma rfc6455_sample:
  "base64 (map unat (sha1 (utf8
     (''dGhlIHNhbXBsZSBub25jZQ=='' @ ''258EAFA5-E914-47DA-95CA-C5AB0DC85B11'')))) =
   ''s3pPLMBiTxaQ9kYGzzhZRbK+xOo=''"
  by (simp add: sha1_eval)

text \<open>
  Claim C7, on the code. The response is the 101 response with the digest of the key
  followed by the GUID of part_000, which is not the GUID of the protocol: the sample key
  of the protocol gets another accept value than the protocol's.
\<close>

theorem handshake_sample_key:
  "acceptWebSocket (Some k) =
     ''HTTP/1.1 101 Switching Protocols'' @ crlf @ ''Upgrade: websocket'' @ crlf @
     ''Connection: Upgrade'' @ crlf @ ''Sec-WebSocket-Accept: '' @
     base64 (map unat (sha1 (utf8 (k @ ''258EAFA5-E914-47DA-95CA-5AB5A04DF50A'')))) @ crlf @ crlf
   \<and> accept_value (Some ''dGhlIHNhbXBsZSBub25jZQ=='') = ''BJmPxQloJA0r2/KJCQjOWR7NsIU=''
   \<and> accept_value (Some ''dGhlIHNhbXBsZSBub25jZQ=='') \<noteq> ''s3pPLMBiTxaQ9kYGzzhZRbK+xOo=''"
proof -
  have "accept_value (Some ''dGhlIHNhbXBsZSBub25jZQ=='') = ''BJmPxQloJA0r2/KJCQjOWR7NsIU=''"
    by (simp add: accept_value_def handshake_guid_def sha1_eval)
  then show ?thesis
    by (simp add: acceptWebSocket_def accept_value_def handshake_guid_def)
qed

section \<open>Evaluating the sample game\<close>

lemma mod_Suc_2: "n mod Suc (Suc 0) = n mod 2"
proof -
  have "Suc (Suc 0) = 2" by simp
  then show ?thesis by (simp only:)
qed

lemma mod_Suc_3: "n mod Suc (Suc (Suc 0)) = n mod 3"
proof -
  have "Suc (Suc (Suc 0)) = 3" by simp
  then show ?thesis by (simp only:)
qed

lemma ROUNDS_Suc: "ROUNDS = Suc (Suc (Suc 0))"
  by (simp add: ROUNDS_def)

lemmas sample_defs = msg_def boot_def ann_def bob_def cat_def three_players_def three_clients_def
  lobby_of_three_def new_lobby_def in_answering_def tea_def rum_def in_voting_def

lemmas js_eval = js_or_def field_def Let_def map_has_def char_of_def bit_Suc_0_iff
  capital_def trim_def white_space_def code_of_def hex_id_def hex_digit_def
  lobby_chars_def randomInt_def shuffleArray_def mod_Suc_2 mod_Suc_3 ROUNDS_Suc
  id_name_def id_text_def

lemmas send_eval = sendTo_def audience_def broadcastToLobby_def broadcastLobbyState_def upd_def

lemmas timer_eval = clearTimer_def setTimeout_def startTimer_def
  TIMER_QUESTION_def TIMER_ANSWER_def TIMER_PER_PLAYER_def

lemma run_three_join: "run three_join boot = Inr lobby_of_three"
  by (simp add: three_join_def step_def initial_def handleMessage_def on_create_lobby_def
      on_join_lobby_def generateId_def createLobby_def generateLobbyCode.simps
      sample_defs js_eval send_eval fun_upd_twist)

section \<open>State left alone by sending and by timers\<close>

lemma objs_broadcastToLobby [simp]: "objs (broadcastToLobby a ev s) = objs s"
  by (simp add: broadcastToLobby_def)

lemma objs_sendTo [simp]: "objs (sendTo ws ev s) = objs s"
  by (simp add: sendTo_def)

lemma objs_upd [simp]: "objs (upd a f s) = (objs s)(a := f (objs s a))"
  by (simp add: upd_def)

lemma objs_clearTimer:
  "objs (clearTimer a s) =
     (objs s)(a := (case timer (objs s a) of None \<Rightarrow> objs s a
                    | Some h \<Rightarrow> (objs s a)\<lparr>timer := None, timerEnd := None\<rparr>))"
  by (simp add: clearTimer_def split: option.splits)

lemma nextHandle_clearTimer [simp]: "nextHandle (clearTimer a s) = nextHandle s"
  by (simp add: clearTimer_def upd_def split: option.splits)

lemma now_clearTimer [simp]: "now (clearTimer a s) = now s"
  by (simp add: clearTimer_def upd_def split: option.splits)

lemma objs_startTimer:
  "objs (startTimer a n cb s) =
     (objs s)(a := (objs s a)\<lparr>timerEnd := Some (now s + n * 1000), timer := Some (nextHandle s)\<rparr>)"
  by (auto simp: startTimer_def setTimeout_def Let_def objs_clearTimer upd_def fun_eq_iff
      split: option.splits)

section \<open>The guesser rotation\<close>

lemma randomInt_less: "0 < n \<Longrightarrow> randomInt n r < n"
  by (simp add: randomInt_def)

lemma shuffle_loop_mset: "i < length a \<Longrightarrow> mset (shuffle_loop i rnd k a) = mset a"
proof (induction i arbitrary: k a)
  case 0
  then show ?case by simp
next
  case (Suc i)
  let ?j = "randomInt (Suc i + 1) (rnd k)"
  have j: "?j < length a"
    using randomInt_less [of "Suc i + 1" "rnd k"] Suc.prems by simp
  have "mset (a[Suc i := a ! ?j, ?j := a ! Suc i]) = mset a"
    using mset_swap [of ?j a "Suc i"] j Suc.prems by simp
  moreover have "i < length (a[Suc i := a ! ?j, ?j := a ! Suc i])"
    using Suc.prems by simp
  ultimately show ?case
    using Suc.IH [of "a[Suc i := a ! ?j, ?j := a ! Suc i]" "k + 1"] by (simp add: Let_def)
qed

lemma shuffleArray_mset: "mset (shuffleArray rnd k arr) = mset arr"
proof (cases arr)
  case Nil
  then show ?thesis by (simp add: shuffleArray_def)
next
  case (Cons x xs)
  then show ?thesis by (simp add: shuffleArray_def shuffle_loop_mset)
qed

lemma shuffleArray_length: "length (shuffleArray rnd k arr) = length arr"
  using shuffleArray_mset [of rnd k arr] by (metis size_mset)

lemma build_order_eq:
  "build_order r rnd k ids acc =
     (acc @ concat (map (\<lambda>i. shuffleArray rnd (k + i * (length ids - 1)) ids) [0..<r]),
      k + r * (length ids - 1))"
proof (induction r arbitrary: k acc)
  case 0
  then show ?case by simp
next
  case (Suc r)
  have "map (\<lambda>i. shuffleArray rnd (k + i * (length ids - 1)) ids) [0..<Suc r] =
        shuffleArray rnd k ids #
        map (\<lambda>i. shuffleArray rnd (k + (length ids - 1) + i * (length ids - 1)) ids) [0..<r]"
    by (simp add: upt_conv_Cons map_Suc_upt [symmetric] add.assoc del: upt_Suc)
  then show ?case
    using Suc.IH [of "k + (length ids - 1)" "acc @ shuffleArray rnd k ids"]
    by (simp add: add.assoc)
qed

lemma blocks_of_three:
  assumes "length x = n" "length y = n" "length z = n" "r < 3"
  shows "take n (drop (r * n) (x @ y @ z)) = [x, y, z] ! r"
proof -
  consider "r = 0" | "r = 1" | "r = 2"
    using assms(4) by linarith
  then show ?thesis
    using assms by cases simp_all
qed

text \<open>
  Claim C4. \<^verbatim>\<open>startGame\<close> on a lobby with at least one player returns, and the order it
  builds is the concatenation of \<open>ROUNDS\<close> shuffles of the list of player ids, each reading
  draws of its own: its length is the number of players times \<open>ROUNDS\<close>, each block of as
  many ids as there are players is a permutation of the player ids, and every id occurs
  \<open>ROUNDS\<close> times as often as in the player list (\<open>ROUNDS\<close> times when ids are distinct).
\<close>

theorem rotation_order:
  assumes "players (objs s a) \<noteq> []"
  shows "\<exists>s'. startGame a s = Inr s'
     \<and> guesserOrder (objs s' a) =
         concat (map (\<lambda>r. shuffleArray (mathRandom s)
                   (rpos s + r * (length (players (objs s a)) - 1))
                   (map pid (players (objs s a)))) [0..<ROUNDS])
     \<and> length (guesserOrder (objs s' a)) = length (players (objs s a)) * ROUNDS
     \<and> (\<forall>r<ROUNDS. mset (take (length (players (objs s a)))
                         (drop (r * length (players (objs s a))) (guesserOrder (objs s' a)))) =
                      mset (map pid (players (objs s a))))
     \<and> (\<forall>p. count_list (guesserOrder (objs s' a)) p =
              ROUNDS * count_list (map pid (players (objs s a))) p)"
proof -
  define ids where "ids = map pid (players (objs s a))"
  define n where "n = length (players (objs s a))"
  define sh where "sh = (\<lambda>r. shuffleArray (mathRandom s) (rpos s + r * (n - 1)) ids)"
  define order where "order = sh 0 @ sh 1 @ sh 2"
  have len_ids: "length ids = n"
    by (simp add: ids_def n_def)
  have n_pos: "0 < n"
    using assms by (simp add: n_def)
  have sh_len: "length (sh r) = n" for r
    by (simp add: sh_def shuffleArray_length len_ids)
  have sh_mset: "mset (sh r) = mset ids" for r
    by (simp add: sh_def shuffleArray_mset)
  have upt3: "[0..<ROUNDS] = [0, 1, 2]"
    by (simp add: ROUNDS_def upt_rec)
  have order_eq: "concat (map sh [0..<ROUNDS]) = order"
    by (simp add: upt3 order_def)
  have "build_order ROUNDS (mathRandom s) (rpos s) ids [] =
        (concat (map sh [0..<ROUNDS]), rpos s + ROUNDS * (n - 1))"
    by (simp add: build_order_eq sh_def len_ids)
  then have built: "build_order ROUNDS (mathRandom s) (rpos s) ids [] =
        (order, rpos s + ROUNDS * (n - 1))"
    by (simp only: order_eq)
  have order_len: "length order = n * ROUNDS"
    by (simp add: order_def sh_len ROUNDS_def)
  have "order ! 0 \<in> set order"
    using order_len n_pos by (intro nth_mem) (simp add: ROUNDS_def)
  moreover have "set order = set ids"
    using sh_mset [of 0] sh_mset [of 1] sh_mset [of 2]
    by (simp add: order_def) (metis set_mset_mset sup.idem)
  ultimately have "order ! 0 \<in> pid ` set (players (objs s a))"
    by (simp add: ids_def)
  then have "find (\<lambda>p. pid p = order ! 0) (map (\<lambda>p. p\<lparr>score := 0\<rparr>) (players (objs s a))) \<noteq> None"
    by (auto simp: find_None_iff)
  then obtain g where g: "find (\<lambda>p. pid p = order ! 0)
      (map (\<lambda>p. p\<lparr>score := 0\<rparr>) (players (objs s a))) = Some g"
    by blast
  have pos: "0 < length order"
    using order_len n_pos by (simp add: ROUNDS_def)
  obtain s' where s': "startGame a s = Inr s'" and o': "guesserOrder (objs s' a) = order"
    using g pos built
    by (simp add: startGame_def startQuestionPhase_def Let_def getGuesser_def ids_def
        objs_startTimer)
  have blocks: "mset (take n (drop (r * n) order)) = mset ids" if "r < ROUNDS" for r
  proof -
    have "r < 3" using that by (simp add: ROUNDS_def)
    then have "take n (drop (r * n) order) = [sh 0, sh 1, sh 2] ! r"
      unfolding order_def by (intro blocks_of_three) (simp_all add: sh_len)
    moreover have "mset ([sh 0, sh 1, sh 2] ! r) = mset ids"
      using \<open>r < 3\<close> sh_mset by (auto simp: nth_Cons split: nat.splits)
    ultimately show ?thesis by simp
  qed
  have counts: "count_list order p = ROUNDS * count_list ids p" for p
  proof -
    have "count (mset order) p = 3 * count (mset ids) p"
      by (simp add: order_def sh_mset)
    then show ?thesis
      by (simp add: count_mset ROUNDS_def)
  qed
  show ?thesis
    using s' o' order_eq order_len blocks counts
    by (simp add: sh_def ids_def n_def)
qed

text \<open>The sample lobby of three: nine turns, each player three times.\<close>

theorem rotation_order_witness:
  "players (objs lobby_of_three 0) \<noteq> []
   \<and> (\<exists>s'. startGame 0 lobby_of_three = Inr s'
        \<and> guesserOrder (objs s' 0) = [bob, ann, cat, cat, ann, bob, bob, cat, ann]
        \<and> length (guesserOrder (objs s' 0)) = 9
        \<and> count_list (guesserOrder (objs s' 0)) ann = 3
        \<and> count_list (guesserOrder (objs s' 0)) cat = 3)"
proof -
  have p: "players (objs lobby_of_three 0) \<noteq> []"
    by (simp add: sample_defs)
  from rotation_order [OF p] obtain s' where s': "startGame 0 lobby_of_three = Inr s'"
    and o: "guesserOrder (objs s' 0) =
         concat (map (\<lambda>r. shuffleArray (mathRandom lobby_of_three)
                   (rpos lobby_of_three + r * (length (players (objs lobby_of_three 0)) - 1))
                   (map pid (players (objs lobby_of_three 0)))) [0..<ROUNDS])"
    by blast
  have "guesserOrder (objs s' 0) = [bob, ann, cat, cat, ann, bob, bob, cat, ann]"
    unfolding o by (simp add: sample_defs js_eval)
  then show ?thesis
    using p s' by (simp add: ann_def bob_def cat_def)
qed

section \<open>Scoring the guesses\<close>

lemma score_loop_count:
  assumes "list_all (\<lambda>x. find (\<lambda>p. pid p = playerId x) (players l) \<noteq> None) xs"
  shows "\<exists>rs'. score_loop l xs n rs = Inr (n + length (filter (guessed_right l) xs), rs')"
  using assms
proof (induction xs arbitrary: n rs)
  case Nil
  then show ?case by simp
next
  case (Cons x xs)
  then obtain p where p: "find (\<lambda>p. pid p = playerId x) (players l) = Some p"
    by auto
  have ok: "((case map_of (guesses l) (aid x) of None \<Rightarrow> JUndefined | Some v \<Rightarrow> v) = JStr (playerId x))
      = guessed_right l x"
    by (simp add: guessed_right_def split: option.splits)
  from Cons.prems have rest: "list_all (\<lambda>x. find (\<lambda>p. pid p = playerId x) (players l) \<noteq> None) xs"
    by simp
  show ?case
  proof (cases "guessed_right l x")
    case True
    then show ?thesis
      using Cons.IH [OF rest, of "n + 1"] p ok by (simp add: Let_def)
  next
    case False
    then show ?thesis
      using Cons.IH [OF rest, of n] p ok by (simp add: Let_def)
  qed
qed

lemma find_add_score:
  "find (\<lambda>p. pid p = i) (add_score i n ps) =
     map_option (\<lambda>p. p\<lparr>score := score p + n\<rparr>) (find (\<lambda>p. pid p = i) ps)"
  by (induction ps) auto

lemma find_pid: "find (\<lambda>p. pid p = i) ps = Some g \<Longrightarrow> pid g = i"
  by (induction ps) (auto split: if_splits)

text \<open>
  Claim C5. When the lobby has a guesser and every answer's author is a player,
  \<^verbatim>\<open>scoreGuesses\<close> returns and has added to the guesser's score the number of answers of
  the shuffled list that were guessed right, no more and no less: an answer without an
  entry in the map of guesses is not guessed right. No other player's score changes, and the
  count is what \<^verbatim>\<open>guessResults.correct\<close> holds.
\<close>

theorem scoreGuesses_score:
  assumes "getGuesser (objs s a) = Some g"
    and "list_all (\<lambda>x. find (\<lambda>p. pid p = playerId x) (players (objs s a)) \<noteq> None)
           (shuffledAnswers (objs s a))"
  shows "\<exists>s'. scoreGuesses a s = Inr s'
     \<and> players (objs s' a) =
         add_score (pid g) (length (filter (guessed_right (objs s a)) (shuffledAnswers (objs s a))))
           (players (objs s a))
     \<and> map_option score (getGuesser (objs s' a)) =
         Some (score g + length (filter (guessed_right (objs s a)) (shuffledAnswers (objs s a))))
     \<and> map_option correct (guessResults (objs s' a)) =
         Some (length (filter (guessed_right (objs s a)) (shuffledAnswers (objs s a))))"
proof -
  define l where "l = objs s a"
  define n where "n = length (filter (guessed_right l) (shuffledAnswers l))"
  obtain rs where loop: "score_loop l (shuffledAnswers l) 0 [] = Inr (n, rs)"
    using score_loop_count [OF assms(2) [folded l_def], of 0 "[]"] by (auto simp: n_def)
  have idx: "currentGuesserIdx l < length (guesserOrder l)"
    and fg: "find (\<lambda>p. pid p = guesserOrder l ! currentGuesserIdx l) (players l) = Some g"
    using assms(1) by (auto simp: getGuesser_def l_def split: if_splits)
  have pg: "pid g = guesserOrder l ! currentGuesserIdx l"
    using find_pid [OF fg] .
  have fg': "find (\<lambda>p. pid p = guesserOrder l ! currentGuesserIdx l) (add_score (pid g) n (players l))
      = Some (g\<lparr>score := score g + n\<rparr>)"
    using find_add_score [of "pid g" n "players l"] fg pg by simp
  show ?thesis
    using loop assms(1) idx fg'
    by (simp add: scoreGuesses_def startVotingPhase_def Let_def getGuesser_def objs_startTimer
        l_def [symmetric] n_def [symmetric])
qed

text \<open>
  The example of the specification: of the guesses a1: Bob, a2: Bob only the second is
  right, and the guesser goes from 0 to 1.
\<close>

theorem scoreGuesses_score_witness:
  "getGuesser (objs guess_example 0) = Some \<lparr>pid = cat, name = JStr ''Cat'', score = 0, connected_flag = True\<rparr>
   \<and> list_all (\<lambda>x. find (\<lambda>p. pid p = playerId x) (players (objs guess_example 0)) \<noteq> None)
         (shuffledAnswers (objs guess_example 0))
   \<and> map (guessed_right (objs guess_example 0)) (shuffledAnswers (objs guess_example 0)) = [False, True]
   \<and> (\<exists>s'. scoreGuesses 0 guess_example = Inr s'
        \<and> map_option score (getGuesser (objs s' 0)) = Some 1
        \<and> map_option correct (guessResults (objs s' 0)) = Some 1)"
proof -
  have g: "getGuesser (objs guess_example 0) =
      Some \<lparr>pid = cat, name = JStr ''Cat'', score = 0, connected_flag = True\<rparr>"
    by (simp add: guess_example_def getGuesser_def sample_defs)
  have a: "list_all (\<lambda>x. find (\<lambda>p. pid p = playerId x) (players (objs guess_example 0)) \<noteq> None)
         (shuffledAnswers (objs guess_example 0))"
    by (simp add: guess_example_def sample_defs)
  have c: "map (guessed_right (objs guess_example 0)) (shuffledAnswers (objs guess_example 0)) = [False, True]"
    by (simp add: guess_example_def guessed_right_def sample_defs)
  then have n: "length (filter (guessed_right (objs guess_example 0)) (shuffledAnswers (objs guess_example 0))) = 1"
    by (simp add: guess_example_def sample_defs)
  show ?thesis
    using scoreGuesses_score [OF g a] g a c unfolding n by auto
qed

section \<open>Tallying the votes\<close>

lemma strict_eq_prim: "strict_eq v v \<Longrightarrow> strict_eq k v = (k = v)"
  by (cases k; cases v) auto

lemma bump_prim:
  assumes "strict_eq v v"
  shows "bump v (map (\<lambda>k. (k, f k)) ks) =
     (if v \<in> set ks \<and> distinct ks then map (\<lambda>k. (k, if k = v then f k + 1 else f k)) ks
      else if v \<in> set ks then bump v (map (\<lambda>k. (k, f k)) ks)
      else map (\<lambda>k. (k, f k)) ks @ [(v, 1)])"
proof (induction ks)
  case Nil
  then show ?case by simp
next
  case (Cons k ks)
  show ?case
    using Cons.IH by (auto simp: strict_eq_prim [OF assms])
qed

lemma first_voted_snoc:
  "first_voted (vs @ [x]) = (if x \<in> set vs then first_voted vs else first_voted vs @ [x])"
  by (simp add: first_voted_def)

lemma first_voted_distinct: "distinct (first_voted vs)"
  by (simp add: first_voted_def)

lemma first_voted_set: "set (first_voted vs) = set vs"
  by (simp add: first_voted_def)

lemma count_votes_prim:
  assumes "list_all (\<lambda>v. strict_eq v v) vs"
  shows "foldl (\<lambda>counts v. bump v counts) [] vs = map (\<lambda>v. (v, count_list vs v)) (first_voted vs)"
  using assms
proof (induction vs rule: rev_induct)
  case Nil
  then show ?case by (simp add: first_voted_def)
next
  case (snoc x vs)
  then have IH: "foldl (\<lambda>counts v. bump v counts) [] vs = map (\<lambda>v. (v, count_list vs v)) (first_voted vs)"
    and x: "strict_eq x x"
    by simp_all
  show ?case
  proof (cases "x \<in> set vs")
    case True
    then show ?thesis
      using bump_prim [OF x, of "count_list vs" "first_voted vs"]
      by (simp add: IH first_voted_snoc first_voted_distinct first_voted_set)
  next
    case False
    then have "map (\<lambda>v. (v, count_list vs v)) (first_voted vs) =
               map (\<lambda>v. (v, count_list (vs @ [x]) v)) (first_voted vs)"
      by (auto simp: first_voted_set)
    then show ?thesis
      using False bump_prim [OF x, of "count_list vs" "first_voted vs"]
      by (simp add: IH first_voted_snoc first_voted_set)
  qed
qed

lemma winner_fold:
  "fst (foldl winner_step (w0, m0) (map (\<lambda>v. (v, c v)) ks)) =
     (case find (\<lambda>v. m0 < c v \<and> list_all (\<lambda>u. c u \<le> c v) ks) ks of
        None \<Rightarrow> w0 | Some v \<Rightarrow> Some v)"
proof (induction ks arbitrary: w0 m0)
  case Nil
  then show ?case by simp
next
  case (Cons k ks)
  show ?case
  proof (cases "m0 < c k")
    case True
    note big = True
    show ?thesis
    proof (cases "list_all (\<lambda>u. c u \<le> c k) ks")
      case True
      then have "find (\<lambda>v. c k < c v \<and> list_all (\<lambda>u. c u \<le> c v) ks) ks = None"
        by (auto simp: find_None_iff list_all_iff)
      then show ?thesis
        using big True Cons.IH [of "Some k" "c k"] by (simp add: winner_step_def)
    next
      case False
      then obtain u where u: "u \<in> set ks" "c k < c u"
        by (auto simp: list_all_iff not_le)
      have "find (\<lambda>v. c k < c v \<and> list_all (\<lambda>u. c u \<le> c v) ks) ks =
            find (\<lambda>v. m0 < c v \<and> list_all (\<lambda>u. c u \<le> c v) (k # ks)) ks"
        using u big by (intro find_cong) (auto simp: list_all_iff)
      moreover have "find (\<lambda>v. c k < c v \<and> list_all (\<lambda>u. c u \<le> c v) ks) ks \<noteq> None"
      proof -
        have fin: "finite (c ` set ks)" "c ` set ks \<noteq> {}"
          using u(1) by auto
        from Max_in [OF fin] obtain v where v1: "v \<in> set ks" and v2: "c v = Max (c ` set ks)"
          by auto
        have v: "v \<in> set ks" "\<forall>w\<in>set ks. c w \<le> c v"
          using v1 v2 Max_ge [OF fin(1)] by auto
        then have "c k < c v" using u by force
        then show ?thesis using v by (auto simp: find_None_iff list_all_iff)
      qed
      ultimately show ?thesis
        using big False Cons.IH [of "Some k" "c k"] by (auto simp: winner_step_def)
    qed
  next
    case False
    have "find (\<lambda>v. m0 < c v \<and> list_all (\<lambda>u. c u \<le> c v) ks) ks =
          find (\<lambda>v. m0 < c v \<and> list_all (\<lambda>u. c u \<le> c v) (k # ks)) ks"
      using False by (intro find_cong) (auto simp: list_all_iff)
    then show ?thesis
      using False Cons.IH [of w0 m0] by (simp add: winner_step_def)
  qed
qed

lemma winner_most_voted:
  assumes "list_all (\<lambda>v. strict_eq v v) (map snd m)"
  shows "winner (count_votes m) = most_voted (map snd m)"
proof -
  define vs where "vs = map snd m"
  have pos: "0 < count_list vs v" if "v \<in> set vs" for v
    using that count_list_0_iff [of vs v] by simp
  have "winner (count_votes m) =
      (case find (\<lambda>v. 0 < count_list vs v \<and> list_all (\<lambda>u. count_list vs u \<le> count_list vs v) (first_voted vs))
              (first_voted vs) of None \<Rightarrow> None | Some v \<Rightarrow> Some v)"
    using assms
    by (simp add: winner_def count_votes_def count_votes_prim winner_fold vs_def [symmetric])
  also have "find (\<lambda>v. 0 < count_list vs v \<and> list_all (\<lambda>u. count_list vs u \<le> count_list vs v) (first_voted vs))
              (first_voted vs) =
             find (\<lambda>v. list_all (\<lambda>u. count_list vs u \<le> count_list vs v) vs) (first_voted vs)"
    using pos by (intro find_cong) (auto simp: list_all_iff first_voted_set)
  finally show ?thesis
    by (simp add: most_voted_def vs_def option.case_eq_if)
qed

lemma add_score_absent: "find (\<lambda>p. pid p = i) ps = None \<Longrightarrow> add_score i n ps = ps"
  by (induction ps) (auto split: if_splits)

lemma award_string:
  "award (Some (JStr i)) l =
     (if i = [] then l
      else case find (\<lambda>x. aid x = i) (shuffledAnswers l) of
             None \<Rightarrow> l
           | Some x \<Rightarrow> l\<lparr>players := add_score (playerId x) 1 (players l)\<rparr>)"
  by (auto simp: award_def add_score_absent split: option.splits)

lemma objs_showResults: "objs (showResults a b f s) = (objs s)(a := (objs s a)\<lparr>phase := Results\<rparr>)"
  by (simp add: showResults_def Let_def)

text \<open>
  Claim C6. When the ids voted for are primitive values (strings, as the client sends
  them), \<^verbatim>\<open>tallyVotes\<close> awards each category on its own: the winner of a category is the
  id with the most votes, the first voted for among those with as many; the author of the
  answer with that id gets one point (nobody, when no answer has that id); a category
  without votes has no winner and awards nothing. The phase becomes \<open>Results\<close>.
\<close>

theorem tallyVotes_bonus:
  assumes "list_all (\<lambda>v. strict_eq v v)
             (map snd (best (votes (objs s a))) @ map snd (funniest (votes (objs s a))))"
  shows "objs (tallyVotes a s) a =
       (award (most_voted (map snd (funniest (votes (objs s a)))))
          (award (most_voted (map snd (best (votes (objs s a))))) (objs s a)))\<lparr>phase := Results\<rparr>
     \<and> (\<forall>i l. award (Some (JStr i)) l =
           (if i = [] then l
            else case find (\<lambda>x. aid x = i) (shuffledAnswers l) of
                   None \<Rightarrow> l
                 | Some x \<Rightarrow> l\<lparr>players := add_score (playerId x) 1 (players l)\<rparr>))
     \<and> most_voted [] = None
     \<and> (\<forall>l. award None l = l)"
proof -
  have b: "winner (count_votes (best (votes (objs s a)))) = most_voted (map snd (best (votes (objs s a))))"
    using assms by (intro winner_most_voted) simp
  have f: "winner (count_votes (funniest (votes (objs s a)))) =
      most_voted (map snd (funniest (votes (objs s a))))"
    using assms by (intro winner_most_voted) simp
  have "objs (tallyVotes a s) a =
       (award (most_voted (map snd (funniest (votes (objs s a)))))
          (award (most_voted (map snd (best (votes (objs s a))))) (objs s a)))\<lparr>phase := Results\<rparr>"
    by (simp add: tallyVotes_def Let_def objs_showResults b f)
  moreover have "most_voted [] = None"
    by (simp add: most_voted_def first_voted_def)
  moreover have "award None l = l" for l
    by (simp add: award_def)
  ultimately show ?thesis
    using award_string by simp
qed

text \<open>
  The example of the specification: votes a1, a1, a2 for the best answer make a1 the
  winner and give its author, Ann, one point; the category without votes gives none. On a
  tie the id voted for first wins.
\<close>

theorem tallyVotes_bonus_witness:
  "list_all (\<lambda>v. strict_eq v v)
     (map snd (best (votes (objs vote_example 0))) @ map snd (funniest (votes (objs vote_example 0))))
   \<and> map snd (best (votes (objs vote_example 0))) = [JStr ''a1'', JStr ''a1'', JStr ''a2'']
   \<and> most_voted [JStr ''a1'', JStr ''a1'', JStr ''a2''] = Some (JStr ''a1'')
   \<and> most_voted [JStr ''a2'', JStr ''a1'', JStr ''a1'', JStr ''a2''] = Some (JStr ''a2'')
   \<and> map snd (funniest (votes (objs vote_example 0))) = []
   \<and> map score (players (objs vote_example 0)) = [0, 0, 0]
   \<and> map score (players (objs (tallyVotes 0 vote_example) 0)) = [1, 0, 0]
   \<and> phase (objs (tallyVotes 0 vote_example) 0) = Results"
proof -
  have h: "list_all (\<lambda>v. strict_eq v v)
     (map snd (best (votes (objs vote_example 0))) @ map snd (funniest (votes (objs vote_example 0))))"
    by (simp add: vote_example_def sample_defs)
  have m1: "most_voted [JStr ''a1'', JStr ''a1'', JStr ''a2''] = Some (JStr ''a1'')"
    by (simp add: most_voted_def first_voted_def)
  have m2: "most_voted [JStr ''a2'', JStr ''a1'', JStr ''a1'', JStr ''a2''] = Some (JStr ''a2'')"
    by (simp add: most_voted_def first_voted_def)
  have m0: "most_voted [] = None"
    by (simp add: most_voted_def first_voted_def)
  have v: "map snd (best (votes (objs vote_example 0))) = [JStr ''a1'', JStr ''a1'', JStr ''a2'']"
    "map snd (funniest (votes (objs vote_example 0))) = []"
    by (simp_all add: vote_example_def sample_defs)
  have "objs (tallyVotes 0 vote_example) 0 =
       (award None (award (Some (JStr ''a1'')) (objs vote_example 0)))\<lparr>phase := Results\<rparr>"
    using tallyVotes_bonus [OF h] by (simp add: v m1 m0)
  then show ?thesis
    using h m1 m2 v by (simp add: award_def vote_example_def sample_defs)
qed

section \<open>Starting a game\<close>

lemma run_append:
  "run (xs @ ys) s = (case run xs s of Inl e \<Rightarrow> Inl e | Inr s' \<Rightarrow> run ys s')"
  by (induction xs arbitrary: s) (auto split: sum.splits)

lemma reachable_run: "reachable s \<Longrightarrow> run is s = Inr s' \<Longrightarrow> reachable s'"
proof (induction "is" arbitrary: s)
  case Nil
  then show ?case by simp
next
  case (Cons i "is")
  then show ?case
    by (auto split: sum.splits intro: reachable.after_step)
qed

lemma reachable_boot: "reachable boot"
  by (simp add: boot_def reachable.at_start)

lemma startGame_Inr:
  assumes "players (objs s a) \<noteq> []"
  shows "\<exists>s'. startGame a s = Inr s'
     \<and> objs s' a = (objs s a)\<lparr>guesserOrder :=
            fst (build_order ROUNDS (mathRandom s) (rpos s) (map pid (players (objs s a))) []),
          currentGuesserIdx := 0, players := map (\<lambda>p. p\<lparr>score := 0\<rparr>) (players (objs s a)),
          phase := Question, currentQuestion := JStr [], answers := [], guesses := [],
          votes := \<lparr>best = [], funniest = []\<rparr>, shuffledAnswers := [], revealIndex := 0,
          guessResults := None, timerEnd := Some (now s + TIMER_QUESTION * 1000),
          timer := Some (nextHandle s)\<rparr>
     \<and> (\<exists>g. outbox s' = outbox s @
           map (\<lambda>ws. (ws, PhaseQuestion g 1 (length (players (objs s a)) * ROUNDS) 1 ROUNDS))
             (audience s a) @
           map (\<lambda>ws. (ws, Timer TIMER_QUESTION (now s + TIMER_QUESTION * 1000))) (audience s a))"
proof -
  define ids where "ids = map pid (players (objs s a))"
  define order where "order = fst (build_order ROUNDS (mathRandom s) (rpos s) ids [])"
  have o: "order = shuffleArray (mathRandom s) (rpos s) ids
        @ shuffleArray (mathRandom s) (rpos s + (length ids - 1)) ids
        @ shuffleArray (mathRandom s) (rpos s + (length ids - 1) + (length ids - 1)) ids"
    by (simp add: order_def ROUNDS_Suc)
  have len: "length order = length ids * ROUNDS"
    by (simp add: o shuffleArray_length ROUNDS_def)
  have ne: "ids \<noteq> []"
    using assms by (simp add: ids_def)
  then have pos: "0 < length order"
    by (simp add: len ROUNDS_def)
  have "mset order = mset ids + mset ids + mset ids"
    by (simp add: o shuffleArray_mset)
  then have "set_mset (mset order) = set_mset (mset ids + mset ids + mset ids)"
    by simp
  then have "set order = set ids"
    by simp
  then have "order ! 0 \<in> pid ` set (players (objs s a))"
    using pos nth_mem [of 0 order] by (simp add: ids_def)
  then have "find (\<lambda>p. pid p = order ! 0) (map (\<lambda>p. p\<lparr>score := 0\<rparr>) (players (objs s a))) \<noteq> None"
    by (auto simp: find_None_iff)
  then obtain g where g: "find (\<lambda>p. pid p = order ! 0)
      (map (\<lambda>p. p\<lparr>score := 0\<rparr>) (players (objs s a))) = Some g"
    by blast
  obtain k where b: "build_order ROUNDS (mathRandom s) (rpos s) ids [] = (order, k)"
    by (cases "build_order ROUNDS (mathRandom s) (rpos s) ids []") (simp add: order_def)
  have nonempty: "order \<noteq> []"
    using pos by auto
  show ?thesis
    using g pos b len nonempty
    apply (simp add: startGame_def startQuestionPhase_def Let_def getGuesser_def
        ids_def [symmetric] order_def [symmetric] objs_startTimer)
    apply (simp add: startTimer_def broadcastToLobby_def audience_def setTimeout_def clearTimer_def
        upd_def Let_def ids_def split: option.splits)
    done
qed

text \<open>
  Claim C1, as the code has it. A \<^verbatim>\<open>start_game\<close> message from the host of a lobby, in
  the lobby phase as in any other, starts the game when the player list has at least three
  entries, connected or not: scores are zeroed, the rotation is built, the question phase
  begins and its two events go to the open connections of the lobby. When the list has
  fewer than three entries nothing changes but for the error event
  "Need at least 3 players", sent to the sender if its connection is open.
\<close>

theorem start_game_three_players:
  assumes "host_of s ws = Some a" and "get_prop m ''type'' = Inr (JStr ''start_game'')"
  shows "if length (players (objs s a)) < 3
         then handleMessage ws (Some m) s =
                Inr (if readyState s ws = 1
                     then s\<lparr>outbox := outbox s @ [(ws, Error ''Need at least 3 players'')]\<rparr> else s)
         else (\<exists>s'. handleMessage ws (Some m) s = Inr s'
                \<and> phase (objs s' a) = Question
                \<and> currentGuesserIdx (objs s' a) = 0
                \<and> length (guesserOrder (objs s' a)) = length (players (objs s a)) * ROUNDS
                \<and> players (objs s' a) = map (\<lambda>p. p\<lparr>score := 0\<rparr>) (players (objs s a))
                \<and> (\<exists>g. outbox s' = outbox s @
                      map (\<lambda>ws. (ws, PhaseQuestion g 1 (length (players (objs s a)) * ROUNDS) 1 ROUNDS))
                        (audience s a) @
                      map (\<lambda>ws. (ws, Timer TIMER_QUESTION (now s + TIMER_QUESTION * 1000)))
                        (audience s a)))"
proof -
  obtain c where c: "map_of (clients s) ws = Some c" "map_of (lobbies s) (lobbyCode c) = Some a"
    "hostId (objs s a) = cid c"
    using assms(1) by (auto simp: host_of_def split: option.splits if_splits)
  have h: "handleMessage ws (Some m) s = on_start_game ws s"
    using assms(2) by (simp add: handleMessage_def)
  show ?thesis
  proof (cases "length (players (objs s a)) < 3")
    case True
    then show ?thesis
      using c by (simp add: h on_start_game_def sendTo_def)
  next
    case False
    then have ne: "players (objs s a) \<noteq> []"
      by auto
    have len: "length (fst (build_order ROUNDS (mathRandom s) (rpos s) (map pid (players (objs s a))) []))
        = length (players (objs s a)) * ROUNDS"
      by (simp add: build_order_eq ROUNDS_Suc shuffleArray_length)
    from startGame_Inr [OF ne] obtain s' where s': "startGame a s = Inr s'"
      and o: "objs s' a = (objs s a)\<lparr>guesserOrder :=
            fst (build_order ROUNDS (mathRandom s) (rpos s) (map pid (players (objs s a))) []),
          currentGuesserIdx := 0, players := map (\<lambda>p. p\<lparr>score := 0\<rparr>) (players (objs s a)),
          phase := Question, currentQuestion := JStr [], answers := [], guesses := [],
          votes := \<lparr>best = [], funniest = []\<rparr>, shuffledAnswers := [], revealIndex := 0,
          guessResults := None, timerEnd := Some (now s + TIMER_QUESTION * 1000),
          timer := Some (nextHandle s)\<rparr>"
      and x: "\<exists>g. outbox s' = outbox s @
           map (\<lambda>ws. (ws, PhaseQuestion g 1 (length (players (objs s a)) * ROUNDS) 1 ROUNDS))
             (audience s a) @
           map (\<lambda>ws. (ws, Timer TIMER_QUESTION (now s + TIMER_QUESTION * 1000))) (audience s a)"
      by blast
    show ?thesis
      using False c s' x by (simp add: h on_start_game_def o len)
  qed
qed

lemmas handler_eval = step_def handleMessage_def on_create_lobby_def on_join_lobby_def
  on_start_game_def on_submit_question_def on_submit_answer_def on_next_reveal_def
  on_submit_guesses_def on_vote_def on_next_turn_def on_play_again_def
  generateId_def createLobby_def generateLobbyCode.simps handleDisconnect_def map_delete_def
  startGame_def startQuestionPhase_def startAnswerPhase_def startRevealPhase_def
  sendRevealAnswer_def startGuessingPhase_def startVotingPhase_def scoreGuesses_def
  tallyVotes_def showResults_def nextTurn_def fire_def getGuesser_def getAnswerers_def
  fill_blanks_def record_vote_def allVoted_def new_Map_def count_votes_def winner_def
  winner_step_def award_def winning_answer_def scoreboard_def

lemmas run_eval = handler_eval sample_defs js_eval send_eval timer_eval

text \<open>The lobby of three starts; a lobby of one is refused.\<close>

theorem start_game_three_players_witness:
  "host_of lobby_of_three 1 = Some 0
   \<and> get_prop (JObj [(''type'', JStr ''start_game'')]) ''type'' = Inr (JStr ''start_game'')
   \<and> length (players (objs lobby_of_three 0)) = 3
   \<and> (\<exists>s'. handleMessage 1 (Some (JObj [(''type'', JStr ''start_game'')])) lobby_of_three = Inr s'
        \<and> phase (objs s' 0) = Question
        \<and> length (guesserOrder (objs s' 0)) = 9)
   \<and> (\<exists>s. run [Connect 1, Message 1 (msg ''create_lobby'' [(''name'', JStr ''Ann'')])] boot = Inr s
        \<and> host_of s 1 = Some 0
        \<and> length (players (objs s 0)) = 1
        \<and> handleMessage 1 (Some (JObj [(''type'', JStr ''start_game'')])) s =
            Inr (s\<lparr>outbox := outbox s @ [(1, Error ''Need at least 3 players'')]\<rparr>))"
proof -
  let ?m = "JObj [(''type'', JStr ''start_game'')]"
  have t: "get_prop ?m ''type'' = Inr (JStr ''start_game'')"
    by simp
  have h3: "host_of lobby_of_three 1 = Some 0"
    by (simp add: host_of_def sample_defs)
  have n3: "length (players (objs lobby_of_three 0)) = 3"
    by (simp add: sample_defs)
  have three: "\<exists>s'. handleMessage 1 (Some ?m) lobby_of_three = Inr s'
        \<and> phase (objs s' 0) = Question \<and> length (guesserOrder (objs s' 0)) = 9"
    using start_game_three_players [OF h3 t] n3 by (auto simp: ROUNDS_def)
  define s1 where "s1 = (case run [Connect 1, Message 1 (msg ''create_lobby'' [(''name'', JStr ''Ann'')])] boot
      of Inl e \<Rightarrow> boot | Inr s \<Rightarrow> s)"
  have r1: "run [Connect 1, Message 1 (msg ''create_lobby'' [(''name'', JStr ''Ann'')])] boot = Inr s1"
    by (simp add: s1_def initial_def run_eval)
  have h1: "host_of s1 1 = Some 0"
    by (simp add: s1_def host_of_def initial_def run_eval)
  have n1: "length (players (objs s1 0)) = 1"
    by (simp add: s1_def initial_def run_eval)
  have o1: "readyState s1 1 = 1"
    by (simp add: s1_def initial_def run_eval)
  have one: "handleMessage 1 (Some ?m) s1 =
      Inr (s1\<lparr>outbox := outbox s1 @ [(1, Error ''Need at least 3 players'')]\<rparr>)"
    using start_game_three_players [OF h1 t] n1 o1 by simp
  show ?thesis
    using t h3 n3 three r1 h1 n1 one by blast
qed

text \<open>
  Claim C1 as stated fails: after Cat has disconnected, two of the three players are
  connected, and the host's \<^verbatim>\<open>start_game\<close> starts the game; no error is sent.
\<close>

theorem start_game_counterexample:
  "\<exists>s s'. run (three_join @ [Disconnect 3]) boot = Inr s
     \<and> phase (objs s 0) = Lobby
     \<and> map connected_flag (players (objs s 0)) = [True, True, False]
     \<and> host_of s 1 = Some 0
     \<and> readyState s 1 = 1
     \<and> step (Message 1 (msg ''start_game'' [])) s = Inr s'
     \<and> phase (objs s' 0) = Question
     \<and> map fst (outbox s') = [1, 2, 1, 2]
     \<and> list_all (\<lambda>e. snd e \<noteq> Error ''Need at least 3 players'') (outbox s')"
proof -
  define s where "s = handleDisconnect 3 (lobby_of_three\<lparr>outbox := [], readyState := (readyState lobby_of_three)(3 := 3)\<rparr>)"
  have r: "run (three_join @ [Disconnect 3]) boot = Inr s"
    by (simp add: run_append run_three_join step_def s_def)
  define s' where "s' = (case step (Message 1 (msg ''start_game'' [])) s of Inl e \<Rightarrow> s | Inr x \<Rightarrow> x)"
  have st: "step (Message 1 (msg ''start_game'' [])) s = Inr s'"
    by (simp add: s'_def s_def run_eval)
  have a: "phase (objs s 0) = Lobby" "map connected_flag (players (objs s 0)) = [True, True, False]"
    "host_of s 1 = Some 0" "readyState s 1 = 1"
    by (simp_all add: s_def host_of_def run_eval)
  have b: "phase (objs s' 0) = Question" "map fst (outbox s') = [1, 2, 1, 2]"
    "list_all (\<lambda>e. snd e \<noteq> Error ''Need at least 3 players'') (outbox s')"
    by (simp_all add: s'_def s_def run_eval)
  show ?thesis
    by (intro exI [of _ s] exI [of _ s'] conjI r st a b)
qed

lemma fun_upd_eq_cancel: "(f(a := x) = f(a := y)) = (x = y)"
  by (metis fun_upd_same)

lemma run_to_answering: "run to_answering lobby_of_three = Inr in_answering"
  by (simp add: to_answering_def run_eval fun_upd_eq_cancel)

lemma run_to_voting: "run to_voting in_answering = Inr in_voting"
  by (simp add: to_voting_def run_eval fun_upd_eq_cancel)

lemma reachable_lobby_of_three: "reachable lobby_of_three"
  using reachable_run [OF reachable_boot run_three_join] .

lemma reachable_in_answering: "reachable in_answering"
  using reachable_run [OF reachable_lobby_of_three run_to_answering] .

lemma reachable_in_voting: "reachable in_voting"
  using reachable_run [OF reachable_in_answering run_to_voting] .

section \<open>Playing again\<close>

lemma audience_upd:
  "code (f (objs s a)) = code (objs s a) \<Longrightarrow> audience (upd a f s) a = audience s a"
  by (simp add: audience_def upd_def)

text \<open>
  Claim C2, as the code has it. A \<^verbatim>\<open>play_again\<close> message from the host of a lobby, in
  every phase, sets the phase to \<open>Lobby\<close> and every score to 0 and sends the lobby phase
  event and the roster to the open connections of the lobby; the current question, the
  collected answers, the shuffled list, the guesses, the votes and the reveal index are
  left as they are by the handler. From a connection that is not the
  host of a lobby the message changes nothing and sends nothing.
\<close>

theorem play_again_resets:
  assumes "get_prop m ''type'' = Inr (JStr ''play_again'')"
  shows "case host_of s ws of
           None \<Rightarrow> handleMessage ws (Some m) s = Inr s
         | Some a \<Rightarrow>
             (\<exists>s'. handleMessage ws (Some m) s = Inr s'
                \<and> phase (objs s' a) = Lobby
                \<and> players (objs s' a) = map (\<lambda>p. p\<lparr>score := 0\<rparr>) (players (objs s a))
                \<and> currentQuestion (objs s' a) = currentQuestion (objs s a)
                \<and> answers (objs s' a) = answers (objs s a)
                \<and> shuffledAnswers (objs s' a) = shuffledAnswers (objs s a)
                \<and> guesses (objs s' a) = guesses (objs s a)
                \<and> votes (objs s' a) = votes (objs s a)
                \<and> revealIndex (objs s' a) = revealIndex (objs s a)
                \<and> outbox s' = outbox s @ map (\<lambda>ws. (ws, PhaseLobby)) (audience s a) @
                     map (\<lambda>ws. (ws, LobbyUpdate (map (\<lambda>p. p\<lparr>score := 0\<rparr>) (players (objs s a)))
                                       (hostId (objs s a)) (code (objs s a)))) (audience s a))"
proof -
  have h: "handleMessage ws (Some m) s = on_play_again ws s"
    using assms by (simp add: handleMessage_def)
  show ?thesis
  proof (cases "host_of s ws")
    case None
    then show ?thesis
      by (auto simp: h on_play_again_def host_of_def split: option.splits if_splits)
  next
    case (Some a)
    then obtain c where c: "map_of (clients s) ws = Some c" "map_of (lobbies s) (lobbyCode c) = Some a"
      "hostId (objs s a) = cid c"
      by (auto simp: host_of_def split: option.splits if_splits)
    show ?thesis
      using c Some
      by (simp add: h on_play_again_def broadcastLobbyState_def broadcastToLobby_def audience_def upd_def)
  qed
qed

lemma run_in_answering: "run (three_join @ to_answering) boot = Inr in_answering"
  by (simp add: run_append run_three_join run_to_answering)

text \<open>In the answering phase of the sample game: from the host Ann, and from Bob.\<close>

theorem play_again_resets_witness:
  "get_prop (JObj [(''type'', JStr ''play_again'')]) ''type'' = Inr (JStr ''play_again'')
   \<and> run (three_join @ to_answering) boot = Inr in_answering
   \<and> phase (objs in_answering 0) = Answering
   \<and> host_of in_answering 1 = Some 0
   \<and> (\<exists>s'. handleMessage 1 (Some (JObj [(''type'', JStr ''play_again'')])) in_answering = Inr s'
         \<and> phase (objs s' 0) = Lobby
         \<and> currentQuestion (objs s' 0) = currentQuestion (objs in_answering 0)
         \<and> answers (objs s' 0) = answers (objs in_answering 0))
   \<and> host_of in_answering 2 = None
   \<and> handleMessage 2 (Some (JObj [(''type'', JStr ''play_again'')])) in_answering = Inr in_answering"
proof -
  let ?m = "JObj [(''type'', JStr ''play_again'')]"
  have t: "get_prop ?m ''type'' = Inr (JStr ''play_again'')"
    by simp
  have a: "phase (objs in_answering 0) = Answering" "host_of in_answering 1 = Some 0"
    "host_of in_answering 2 = None"
    by (simp_all add: host_of_def sample_defs)
  have one: "\<exists>s'. handleMessage 1 (Some ?m) in_answering = Inr s'
              \<and> phase (objs s' 0) = Lobby
              \<and> currentQuestion (objs s' 0) = currentQuestion (objs in_answering 0)
              \<and> answers (objs s' 0) = answers (objs in_answering 0)"
    using play_again_resets [OF t, where s = in_answering and ws = 1] a(2) by auto
  have two: "handleMessage 2 (Some ?m) in_answering = Inr in_answering"
    using play_again_resets [OF t, where s = in_answering and ws = 2] a(3) by simp
  show ?thesis
    by (intro conjI t run_in_answering a one two)
qed

text \<open>
  Claim C2 as stated fails: after the host's \<^verbatim>\<open>play_again\<close> the question and the answer
  collected so far are still there.
\<close>

theorem play_again_counterexample:
  "\<exists>s'. run (three_join @ to_answering) boot = Inr in_answering
     \<and> host_of in_answering 1 = Some 0
     \<and> currentQuestion (objs in_answering 0) = JStr ''Q?''
     \<and> step (Message 1 (msg ''play_again'' [])) in_answering = Inr s'
     \<and> phase (objs s' 0) = Lobby
     \<and> currentQuestion (objs s' 0) = JStr ''Q?''
     \<and> answers (objs s' 0) = [(ann, JStr ''tea'')]
     \<and> timer (objs s' 0) = Some 1
     \<and> timeouts s' = [(1, 0, AnswerTimeout)]"
proof -
  define s' where "s' = (case step (Message 1 (msg ''play_again'' [])) in_answering
      of Inl e \<Rightarrow> boot | Inr x \<Rightarrow> x)"
  have st: "step (Message 1 (msg ''play_again'' [])) in_answering = Inr s'"
    by (simp add: s'_def run_eval)
  have a: "host_of in_answering 1 = Some 0" "currentQuestion (objs in_answering 0) = JStr ''Q?''"
    by (simp_all add: host_of_def sample_defs)
  have b: "phase (objs s' 0) = Lobby" "currentQuestion (objs s' 0) = JStr ''Q?''"
    "answers (objs s' 0) = [(ann, JStr ''tea'')]" "timer (objs s' 0) = Some 1"
    "timeouts s' = [(1, 0, AnswerTimeout)]"
    by (simp_all add: s'_def run_eval)
  show ?thesis
    by (intro exI [of _ s'] conjI run_in_answering a st b)
qed

text \<open>
  Claim C3, on the code. The handler of \<^verbatim>\<open>play_again\<close> does not call \<^verbatim>\<open>clearTimer\<close>: the
  answer timer started in the answering phase is still pending in the lobby phase, and
  when it fires there its callback moves the lobby on to the reveal phase.
\<close>

theorem play_again_keeps_timer:
  "\<exists>s' s''. run (three_join @ to_answering) boot = Inr in_answering
     \<and> phase (objs in_answering 0) = Answering
     \<and> pending in_answering 0 = [1]
     \<and> step (Message 1 (msg ''play_again'' [])) in_answering = Inr s'
     \<and> phase (objs s' 0) = Lobby
     \<and> pending s' 0 = [1]
     \<and> step (Fire 1) s' = Inr s''
     \<and> phase (objs s'' 0) = Reveal"
proof -
  define s' where "s' = (case step (Message 1 (msg ''play_again'' [])) in_answering
      of Inl e \<Rightarrow> boot | Inr x \<Rightarrow> x)"
  have st: "step (Message 1 (msg ''play_again'' [])) in_answering = Inr s'"
    by (simp add: s'_def run_eval)
  define s'' where "s'' = (case step (Fire 1) s' of Inl e \<Rightarrow> boot | Inr x \<Rightarrow> x)"
  have st': "step (Fire 1) s' = Inr s''"
    by (simp add: s''_def s'_def run_eval)
  have a: "phase (objs in_answering 0) = Answering" "pending in_answering 0 = [1]"
    by (simp_all add: pending_def sample_defs)
  have b: "phase (objs s' 0) = Lobby" "pending s' 0 = [1]"
    by (simp_all add: s'_def pending_def run_eval)
  have c: "phase (objs s'' 0) = Reveal"
    by (simp add: s''_def s'_def run_eval)
  show ?thesis
    by (intro exI [of _ s'] exI [of _ s''] conjI run_in_answering a st b st' c)
qed

section \<open>One timer per lobby\<close>

subsection \<open>What leaves the timers alone\<close>

lemma timers_ok_cong:
  assumes "timeouts s' = timeouts s" "nextHandle s' = nextHandle s" "nextObj s' = nextObj s"
    "lobbies s' = lobbies s" "\<And>a. timer (objs s' a) = timer (objs s a)"
  shows "timers_ok s' = timers_ok s"
  using assms by (simp add: timers_ok_def pending_def)

lemma ok_at_cong:
  assumes "timeouts s' = timeouts s" "nextHandle s' = nextHandle s" "nextObj s' = nextObj s"
    "lobbies s' = lobbies s" "\<And>a. timer (objs s' a) = timer (objs s a)"
  shows "ok_at s' b = ok_at s b"
  using assms timers_ok_cong [of s' s] by (simp add: ok_at_def)

lemma ok_at_upd:
  "timer (f (objs s a)) = timer (objs s a) \<Longrightarrow> ok_at (upd a f s) b = ok_at s b"
  by (rule ok_at_cong) (simp_all add: upd_def)

lemma ok_at_broadcastToLobby [simp]: "ok_at (broadcastToLobby a ev s) b = ok_at s b"
  by (rule ok_at_cong) (simp_all add: broadcastToLobby_def)

lemma ok_at_sendTo [simp]: "ok_at (sendTo ws ev s) b = ok_at s b"
  by (rule ok_at_cong) (simp_all add: sendTo_def)

lemma ok_at_broadcastLobbyState [simp]: "ok_at (broadcastLobbyState a s) b = ok_at s b"
  by (simp add: broadcastLobbyState_def)

lemma ok_at_sendRevealAnswer [simp]: "ok_at (sendRevealAnswer a s) b = ok_at s b"
  by (simp add: sendRevealAnswer_def Let_def)

lemma ok_at_fields [simp]:
  "ok_at (s\<lparr>rpos := k\<rparr>) b = ok_at s b"
  "ok_at (s\<lparr>epos := k\<rparr>) b = ok_at s b"
  "ok_at (s\<lparr>clients := cs\<rparr>) b = ok_at s b"
  "ok_at (s\<lparr>outbox := ob\<rparr>) b = ok_at s b"
  "ok_at (s\<lparr>readyState := rs\<rparr>) b = ok_at s b"
  "ok_at (s\<lparr>now := t\<rparr>) b = ok_at s b"
  by (rule ok_at_cong; simp)+

lemma pending_filter:
  "map fst (filter (\<lambda>t. fst (snd t) = b) (filter (\<lambda>(h', a', cb). h' \<noteq> h) ts)) =
     filter (\<lambda>h'. h' \<noteq> h) (map fst (filter (\<lambda>t. fst (snd t) = b) ts))"
  by (induction ts) auto

lemma pending_upd [simp]: "pending (upd a f s) x = pending s x"
  by (simp add: pending_def upd_def)

lemma pending_remove:
  "pending (s\<lparr>timeouts := filter (\<lambda>(h', a', cb). h' \<noteq> h) (timeouts s)\<rparr>) x =
     filter (\<lambda>h'. h' \<noteq> h) (pending s x)"
  using pending_filter [of x h "timeouts s"] by (simp add: pending_def)

lemma ok_at_clearTimer:
  assumes "ok_at s b"
  shows "ok_at (clearTimer a s) b"
proof (cases "timer (objs s a)")
  case None
  then show ?thesis using assms by (simp add: clearTimer_def)
next
  case (Some h)
  have ok: "timers_ok s" and b: "b < nextObj s"
    using assms by (simp_all add: ok_at_def)
  have d: "distinct (map fst (timeouts s))"
    and p: "\<And>x. pending s x = (case timer (objs s x) of None \<Rightarrow> [] | Some h \<Rightarrow> [h])"
    using ok by (simp_all add: timers_ok_def)
  have pa: "pending s a = [h]"
    using p [of a] Some by simp
  have other: "h \<notin> set (pending s x)" if "x \<noteq> a" for x
  proof
    assume "h \<in> set (pending s x)"
    then obtain cb where 1: "(h, x, cb) \<in> set (timeouts s)"
      by (auto simp: pending_def)
    have "h \<in> set (pending s a)" using pa by simp
    then obtain cb' where 2: "(h, a, cb') \<in> set (timeouts s)"
      by (auto simp: pending_def)
    from d 1 2 have "(x, cb) = (a, cb')"
      by (meson eq_key_imp_eq_value)
    with that show False by simp
  qed
  have "pending (clearTimer a s) x =
      (case timer (objs (clearTimer a s) x) of None \<Rightarrow> [] | Some h \<Rightarrow> [h])" for x
  proof (cases "x = a")
    case True
    then show ?thesis
      using Some pa by (simp add: clearTimer_def pending_remove)
  next
    case False
    have "filter (\<lambda>h'. h' \<noteq> h) (pending s x) = pending s x"
      using other [OF False] by (auto simp: filter_id_conv)
    then show ?thesis
      using Some False p [of x]
      by (simp add: clearTimer_def pending_remove)
  qed
  moreover have "distinct (map fst (timeouts (clearTimer a s)))"
    using d Some by (simp add: clearTimer_def upd_def distinct_map_filter)
  moreover have "list_all (\<lambda>t. fst t < nextHandle (clearTimer a s) \<and> fst (snd t) < nextObj (clearTimer a s))
      (timeouts (clearTimer a s))"
    using ok Some by (auto simp: timers_ok_def clearTimer_def upd_def list_all_iff)
  moreover have "list_all (\<lambda>e. snd e < nextObj (clearTimer a s)) (lobbies (clearTimer a s))"
    using ok Some by (simp add: timers_ok_def clearTimer_def upd_def)
  moreover have "b < nextObj (clearTimer a s)"
    using b Some by (simp add: clearTimer_def upd_def)
  ultimately show ?thesis
    by (simp add: ok_at_def timers_ok_def)
qed

lemma pending_clearTimer: "ok_at s a \<Longrightarrow> pending (clearTimer a s) a = []"
proof -
  assume "ok_at s a"
  then have "timers_ok (clearTimer a s)"
    using ok_at_clearTimer [of s a a] by (simp add: ok_at_def)
  then have "pending (clearTimer a s) a =
      (case timer (objs (clearTimer a s) a) of None \<Rightarrow> [] | Some h \<Rightarrow> [h])"
    by (simp add: timers_ok_def)
  then show ?thesis
    by (simp add: objs_clearTimer split: option.splits)
qed

lemma ok_at_startTimer:
  assumes "ok_at s a" "ok_at s b"
  shows "ok_at (startTimer a n cb s) b"
proof -
  define s1 where "s1 = clearTimer a s"
  have ok1: "timers_ok s1" and a1: "a < nextObj s1" and b1: "b < nextObj s1"
    using ok_at_clearTimer [OF assms(1), of a] ok_at_clearTimer [OF assms(2), of a]
    by (simp_all add: ok_at_def s1_def)
  have p1: "pending s1 a = []"
    using pending_clearTimer [OF assms(1)] by (simp add: s1_def)
  have fresh: "nextHandle s1 \<notin> fst ` set (timeouts s1)"
    using ok1 by (auto simp: timers_ok_def list_all_iff)
  have st: "startTimer a n cb s =
      (upd a (\<lambda>l. l\<lparr>timer := Some (nextHandle s1)\<rparr>)
         ((upd a (\<lambda>l. l\<lparr>timerEnd := Some (now s1 + n * 1000)\<rparr>) s1)
            \<lparr>timeouts := timeouts s1 @ [(nextHandle s1, a, cb)], nextHandle := nextHandle s1 + 1\<rparr>))
      \<lparr>outbox := outbox s1 @ map (\<lambda>ws. (ws, Timer n (now s1 + n * 1000))) (audience s1 a)\<rparr>"
    by (simp add: startTimer_def setTimeout_def Let_def s1_def [symmetric] broadcastToLobby_def
        upd_def audience_def)
  have "timers_ok (startTimer a n cb s)"
    unfolding st using ok1 a1 p1 fresh
    by (auto simp: timers_ok_def upd_def pending_def list_all_iff)
  moreover have "nextObj (startTimer a n cb s) = nextObj s1"
    unfolding st by (simp add: upd_def)
  ultimately show ?thesis
    using b1 by (simp add: ok_at_def)
qed

subsection \<open>The phases\<close>

lemma ok_startQuestionPhase:
  "startQuestionPhase a s = Inr s' \<Longrightarrow> ok_at s a \<Longrightarrow> ok_at s b \<Longrightarrow> ok_at s' b"
  by (auto simp: startQuestionPhase_def Let_def ok_at_upd intro!: ok_at_startTimer
      split: option.splits)

lemma ok_startAnswerPhase:
  "startAnswerPhase a s = Inr s' \<Longrightarrow> ok_at s a \<Longrightarrow> ok_at s b \<Longrightarrow> ok_at s' b"
  by (auto simp: startAnswerPhase_def Let_def ok_at_upd intro!: ok_at_startTimer
      split: option.splits)

lemma ok_startRevealPhase:
  "startRevealPhase a s = Inr s' \<Longrightarrow> ok_at s b \<Longrightarrow> ok_at s' b"
  by (auto simp: startRevealPhase_def Let_def ok_at_upd split: option.splits)

lemma ok_startGuessingPhase:
  "startGuessingPhase a s = Inr s' \<Longrightarrow> ok_at s a \<Longrightarrow> ok_at s b \<Longrightarrow> ok_at s' b"
  by (auto simp: startGuessingPhase_def Let_def ok_at_upd intro!: ok_at_startTimer
      split: option.splits)

lemma ok_startVotingPhase:
  "startVotingPhase a s = Inr s' \<Longrightarrow> ok_at s a \<Longrightarrow> ok_at s b \<Longrightarrow> ok_at s' b"
  by (auto simp: startVotingPhase_def Let_def ok_at_upd intro!: ok_at_startTimer
      split: option.splits)

lemma timer_award [simp]: "timer (award w l) = timer l"
  by (simp add: award_def split: option.splits)

lemma ok_tallyVotes: "ok_at s b \<Longrightarrow> ok_at (tallyVotes a s) b"
  by (simp add: tallyVotes_def showResults_def Let_def ok_at_upd)

lemma ok_scoreGuesses:
  "scoreGuesses a s = Inr s' \<Longrightarrow> ok_at s a \<Longrightarrow> ok_at s b \<Longrightarrow> ok_at s' b"
  by (auto simp: scoreGuesses_def Let_def ok_at_upd split: sum.splits option.splits
      elim!: ok_startVotingPhase)

lemma ok_nextTurn:
  "nextTurn a s = Inr s' \<Longrightarrow> ok_at s a \<Longrightarrow> ok_at s b \<Longrightarrow> ok_at s' b"
  by (auto simp: nextTurn_def Let_def ok_at_upd split: if_splits elim!: ok_startQuestionPhase)

lemma ok_startGame:
  "startGame a s = Inr s' \<Longrightarrow> ok_at s a \<Longrightarrow> ok_at s b \<Longrightarrow> ok_at s' b"
  by (auto simp: startGame_def Let_def ok_at_upd split: prod.splits elim!: ok_startQuestionPhase)

lemma ok_callback:
  "callback cb a s = Inr s' \<Longrightarrow> ok_at s a \<Longrightarrow> ok_at s b \<Longrightarrow> ok_at s' b"
  by (cases cb)
    (auto simp: ok_at_upd ok_tallyVotes
      elim!: ok_startAnswerPhase ok_startRevealPhase ok_scoreGuesses)

lemma lobby_allocated:
  "timers_ok s \<Longrightarrow> map_of (lobbies s) c = Some a \<Longrightarrow> ok_at s a"
  by (auto simp: timers_ok_def ok_at_def list_all_iff dest!: map_of_SomeD)

subsection \<open>The handlers\<close>

lemma timers_ok_sends [simp]:
  "timers_ok (broadcastToLobby a ev s) = timers_ok s"
  "timers_ok (sendTo ws ev s) = timers_ok s"
  "timers_ok (broadcastLobbyState a s) = timers_ok s"
  by (rule timers_ok_cong; simp add: broadcastToLobby_def sendTo_def broadcastLobbyState_def)+

lemma timers_ok_fields [simp]:
  "timers_ok (s\<lparr>rpos := k\<rparr>) = timers_ok s"
  "timers_ok (s\<lparr>epos := k\<rparr>) = timers_ok s"
  "timers_ok (s\<lparr>clients := cs\<rparr>) = timers_ok s"
  "timers_ok (s\<lparr>outbox := ob\<rparr>) = timers_ok s"
  "timers_ok (s\<lparr>readyState := rs\<rparr>) = timers_ok s"
  "timers_ok (s\<lparr>now := t\<rparr>) = timers_ok s"
  by (rule timers_ok_cong; simp)+

lemma timers_ok_upd:
  "timer (f (objs s a)) = timer (objs s a) \<Longrightarrow> timers_ok (upd a f s) = timers_ok s"
  by (rule timers_ok_cong) (simp_all add: upd_def)

lemma ok_atD: "ok_at s a \<Longrightarrow> timers_ok s"
  by (simp add: ok_at_def)

lemma set_map_set: "set (map_set k v m) \<subseteq> insert (k, v) (set m)"
  by (induction m) (auto split: if_splits)

lemma ok_createLobby:
  assumes "createLobby i nm s = Inr (a, s')" "timers_ok s"
  shows "ok_at s' a"
proof -
  obtain c k where g: "generateLobbyCode (mathRandom s) (map fst (lobbies s)) (rpos s) = Some (c, k)"
    using assms(1) by (auto simp: createLobby_def split: option.splits)
  have a: "a = nextObj s"
    using assms(1) g by (auto simp: createLobby_def)
  have s': "s' = s\<lparr>objs := (objs s)(nextObj s := new_lobby c i nm), nextObj := nextObj s + 1,
                 lobbies := map_set c (nextObj s) (lobbies s), rpos := k\<rparr>"
    using assms(1) g by (auto simp: createLobby_def)
  have "list_all (\<lambda>t. fst t < nextHandle s \<and> fst (snd t) < nextObj s) (timeouts s)"
    using assms(2) by (simp add: timers_ok_def)
  then have none: "pending s (nextObj s) = []"
    by (auto simp: pending_def list_all_iff filter_empty_conv)
  have "list_all (\<lambda>e. snd e < nextObj s + 1) (map_set c (nextObj s) (lobbies s))"
    using assms(2) set_map_set [of c "nextObj s" "lobbies s"]
    by (fastforce simp: timers_ok_def list_all_iff)
  then have "timers_ok s'"
    using assms(2) none
    by (auto simp: s' timers_ok_def pending_def list_all_iff new_lobby_def)
  then show ?thesis
    by (simp add: ok_at_def a s')
qed

lemma ok_on_create_lobby:
  "on_create_lobby ws m s = Inr s' \<Longrightarrow> timers_ok s \<Longrightarrow> timers_ok s'"
proof -
  assume r: "on_create_lobby ws m s = Inr s'" and ok: "timers_ok s"
  have e: "timers_ok (s\<lparr>epos := epos s + 8\<rparr>)"
    using ok by simp
  show ?thesis
    using r
    by (auto simp: on_create_lobby_def generateId_def Let_def
        split: sum.splits dest!: ok_createLobby [OF _ e] ok_atD)
qed

lemma ok_on_join_lobby:
  "on_join_lobby ws m s = Inr s' \<Longrightarrow> timers_ok s \<Longrightarrow> timers_ok s'"
  by (auto simp: on_join_lobby_def generateId_def Let_def timers_ok_upd
      split: sum.splits option.splits if_splits)

lemma ok_on_start_game:
  "on_start_game ws s = Inr s' \<Longrightarrow> timers_ok s \<Longrightarrow> timers_ok s'"
  by (auto simp: on_start_game_def split: option.splits if_splits
      dest!: lobby_allocated dest: ok_startGame ok_atD)

lemma ok_on_submit_question:
  "on_submit_question ws m s = Inr s' \<Longrightarrow> timers_ok s \<Longrightarrow> timers_ok s'"
proof -
  assume r: "on_submit_question ws m s = Inr s'" and ok: "timers_ok s"
  show ?thesis
  proof (cases "timers_ok s'")
    case True
    then show ?thesis .
  next
    case False
    have k: "ok_at (clearTimer a (upd a (\<lambda>l. l\<lparr>currentQuestion := q\<rparr>) s)) a"
      if "map_of (lobbies s) c = Some a" for a c q
      using lobby_allocated [OF ok that] by (intro ok_at_clearTimer) (simp add: ok_at_upd)
    show ?thesis
      using r ok
      by (auto simp: on_submit_question_def split: option.splits if_splits sum.splits
          dest!: ok_startAnswerPhase [OF _ k k] ok_atD)
  qed
qed

lemma ok_on_submit_answer:
  assumes r: "on_submit_answer ws m s = Inr s'" and ok: "timers_ok s"
  shows "timers_ok s'"
proof -
  have k: "ok_at (clearTimer a (sendTo w ev (upd a (\<lambda>l. l\<lparr>answers := f l\<rparr>) s))) a"
    if "map_of (lobbies s) c = Some a" for a c f w ev
    using lobby_allocated [OF ok that] by (intro ok_at_clearTimer) (simp add: ok_at_upd)
  show ?thesis
    using r ok
    by (auto simp: on_submit_answer_def Let_def timers_ok_upd
        split: option.splits if_splits sum.splits
        dest!: ok_startRevealPhase [OF _ k] ok_atD)
qed

lemma ok_on_next_reveal:
  assumes r: "on_next_reveal ws s = Inr s'" and ok: "timers_ok s"
  shows "timers_ok s'"
proof -
  have k: "ok_at (upd a (\<lambda>l. l\<lparr>revealIndex := f l\<rparr>) s) a"
    if "map_of (lobbies s) c = Some a" for a c f
    using lobby_allocated [OF ok that] by (simp add: ok_at_upd)
  have t: "timers_ok (sendRevealAnswer a (upd a (\<lambda>l. l\<lparr>revealIndex := f l\<rparr>) s))"
    if "map_of (lobbies s) c = Some a" for a c f
  proof -
    have "ok_at (sendRevealAnswer a (upd a (\<lambda>l. l\<lparr>revealIndex := f l\<rparr>) s)) a"
      using k [OF that, of f] by simp
    then show ?thesis
      by (rule ok_atD)
  qed
  show ?thesis
    using r ok
    by (auto simp: on_next_reveal_def Let_def t
        split: option.splits if_splits sum.splits
        dest!: ok_startGuessingPhase [OF _ k k] ok_atD)
qed

lemma ok_on_submit_guesses:
  assumes r: "on_submit_guesses ws m s = Inr s'" and ok: "timers_ok s"
  shows "timers_ok s'"
proof -
  have k: "ok_at (clearTimer a (upd a (\<lambda>l. l\<lparr>guesses := f l\<rparr>) s)) a"
    if "map_of (lobbies s) c = Some a" for a c f
    using lobby_allocated [OF ok that] by (intro ok_at_clearTimer) (simp add: ok_at_upd)
  show ?thesis
    using r ok
    by (auto simp: on_submit_guesses_def Let_def
        split: option.splits if_splits sum.splits
        dest!: ok_scoreGuesses [OF _ k k] ok_atD)
qed

lemma ok_on_vote:
  assumes r: "on_vote ws m s = Inr s'" and ok: "timers_ok s"
  shows "timers_ok s'"
proof -
  have k: "ok_at (tallyVotes a (clearTimer a (upd a (\<lambda>l. l\<lparr>votes := f l\<rparr>) s))) a"
    if "map_of (lobbies s) c = Some a" for a c f
    using lobby_allocated [OF ok that]
    by (intro ok_tallyVotes ok_at_clearTimer) (simp add: ok_at_upd)
  show ?thesis
    using r ok ok_atD [OF k]
    by (auto simp: on_vote_def Let_def timers_ok_upd
        split: option.splits if_splits sum.splits)
qed

lemma ok_on_next_turn:
  assumes r: "on_next_turn ws s = Inr s'" and ok: "timers_ok s"
  shows "timers_ok s'"
proof -
  have k: "ok_at s a" if "map_of (lobbies s) c = Some a" for a c
    using lobby_allocated [OF ok that] .
  show ?thesis
    using r ok
    by (auto simp: on_next_turn_def
        split: option.splits if_splits sum.splits
        dest!: ok_nextTurn [OF _ k k] ok_atD)
qed

lemma ok_on_play_again:
  "on_play_again ws s = Inr s' \<Longrightarrow> timers_ok s \<Longrightarrow> timers_ok s'"
  by (auto simp: on_play_again_def timers_ok_upd split: option.splits if_splits)

lemma ok_handleMessage:
  "handleMessage ws d s = Inr s' \<Longrightarrow> timers_ok s \<Longrightarrow> timers_ok s'"
  unfolding handleMessage_def
  by (auto split: option.splits sum.splits if_splits
      dest: ok_on_create_lobby ok_on_join_lobby ok_on_start_game ok_on_submit_question
        ok_on_submit_answer ok_on_next_reveal ok_on_submit_guesses ok_on_vote
        ok_on_next_turn ok_on_play_again)

lemma timers_ok_lobbies:
  "timers_ok s \<Longrightarrow> set ls \<subseteq> set (lobbies s) \<Longrightarrow> timers_ok (s\<lparr>lobbies := ls\<rparr>)"
  by (auto simp: timers_ok_def pending_def list_all_iff)

lemma ok_handleDisconnect: 
  assumes ok: "timers_ok s"
  shows "timers_ok (handleDisconnect ws s)"
proof -
  have k: "timers_ok (clearTimer a (broadcastLobbyState a (upd a (\<lambda>l. l\<lparr>players := f l\<rparr>) s)))"
    if "map_of (lobbies s) c = Some a" for a c f
    using lobby_allocated [OF ok that]
    by (intro ok_atD [of _ a] ok_at_clearTimer) (simp add: ok_at_upd)
  have "timers_ok (x\<lparr>lobbies := map_delete c (lobbies x)\<rparr>)" if "timers_ok x" for x c
    using that by (rule timers_ok_lobbies) (auto simp: map_delete_def)
  then show ?thesis
    using ok k
    by (auto simp: handleDisconnect_def Let_def timers_ok_upd split: option.splits)
qed

lemma fire_is_clearTimer:
  assumes ok: "timers_ok s" and f: "find (\<lambda>(h', a, cb). h' = h) (timeouts s) = Some (h', a, cb)"
  shows "upd a (\<lambda>l. l\<lparr>timer := None, timerEnd := None\<rparr>)
           (s\<lparr>timeouts := filter (\<lambda>(h', a', cb'). h' \<noteq> h) (timeouts s)\<rparr>) = clearTimer a s"
    and "ok_at s a"
proof -
  from f have m: "(h', a, cb) \<in> set (timeouts s)" and h: "h' = h"
    by (auto simp: find_Some_iff in_set_conv_nth)
  from m have "h' \<in> set (pending s a)"
    by (force simp: pending_def)
  moreover have "pending s a = (case timer (objs s a) of None \<Rightarrow> [] | Some h \<Rightarrow> [h])"
    using ok by (simp add: timers_ok_def)
  ultimately have "timer (objs s a) = Some h"
    using h by (auto split: option.splits)
  then show "upd a (\<lambda>l. l\<lparr>timer := None, timerEnd := None\<rparr>)
           (s\<lparr>timeouts := filter (\<lambda>(h', a', cb'). h' \<noteq> h) (timeouts s)\<rparr>) = clearTimer a s"
    by (simp add: clearTimer_def)
  show "ok_at s a"
    using ok m by (auto simp: timers_ok_def ok_at_def list_all_iff)
qed

lemma ok_fire:
  assumes r: "fire h s = Inr s'" and ok: "timers_ok s"
  shows "timers_ok s'"
proof (cases "find (\<lambda>(h', a, cb). h' = h) (timeouts s)")
  case None
  then show ?thesis
    using r ok by (simp add: fire_def)
next
  case (Some t)
  obtain h' a cb where t: "t = (h', a, cb)"
    by (cases t)
  note c = fire_is_clearTimer [OF ok Some [unfolded t]]
  have "callback cb a (clearTimer a s) = Inr s'"
    using r Some by (simp add: fire_def t c(1))
  from ok_callback [OF this ok_at_clearTimer ok_at_clearTimer, OF c(2) c(2)]
  show ?thesis
    by (rule ok_atD)
qed

lemma ok_handle:
  "handle i s = Inr s' \<Longrightarrow> timers_ok s \<Longrightarrow> timers_ok s'"
  by (cases i) (auto dest: ok_handleMessage ok_fire simp: ok_handleDisconnect)

lemma ok_step:
  "step i s = Inr s' \<Longrightarrow> timers_ok s \<Longrightarrow> timers_ok s'"
  unfolding step_def by (erule ok_handle) simp

lemma timers_ok_initial: "timers_ok (initial rnd rb t)"
  by (simp add: timers_ok_def initial_def pending_def no_lobby_def new_lobby_def)

lemma reachable_timers_ok: "reachable s \<Longrightarrow> timers_ok s"
  by (induction rule: reachable.induct) (auto intro: timers_ok_initial ok_step)

subsection \<open>The invariant on the reachable states\<close>

lemma pending_clearTimer_any:
  assumes "timers_ok s"
  shows "pending (clearTimer a s) a = []"
proof (cases "timer (objs s a)")
  case None
  then show ?thesis
    using assms by (simp add: clearTimer_def timers_ok_def)
next
  case (Some h)
  have "pending s a = [h]"
    using assms Some by (simp add: timers_ok_def)
  then show ?thesis
    using Some by (simp add: clearTimer_def pending_remove)
qed

lemma nextHandle_fresh:
  assumes "timers_ok s"
  shows "nextHandle s \<notin> set (pending s a)"
proof -
  have "list_all (\<lambda>t. fst t < nextHandle s \<and> fst (snd t) < nextObj s) (timeouts s)"
    using assms by (simp add: timers_ok_def)
  then show ?thesis
    by (auto simp: pending_def list_all_iff)
qed

lemma pending_startTimer:
  "pending (startTimer a n cb s) a = pending (clearTimer a s) a @ [nextHandle s]"
  by (simp add: startTimer_def setTimeout_def Let_def broadcastToLobby_def upd_def pending_def
      nextHandle_clearTimer)

text \<open>
  Claim C9. In every state the server can reach, every lobby has at most one timeout pending,
  and it is the one whose handle the lobby's \<^verbatim>\<open>timer\<close> field holds. \<^verbatim>\<open>startTimer\<close> first clears
  what was pending for the lobby and then schedules one timeout, under a handle that was not
  pending before. Whatever event the server handles next, the lobby has at most one timeout
  pending afterwards.
\<close>

theorem one_timer_per_lobby:
  assumes "reachable s"
  shows "length (pending s a) \<le> 1
    \<and> pending s a = (case timer (objs s a) of None \<Rightarrow> [] | Some h \<Rightarrow> [h])
    \<and> pending (clearTimer a s) a = []
    \<and> pending (startTimer a n cb s) a = [nextHandle s]
    \<and> nextHandle s \<notin> set (pending s a)
    \<and> (\<forall>i s'. step i s = Inr s' \<longrightarrow> length (pending s' a) \<le> 1)"
proof -
  have ok: "timers_ok s"
    using assms by (rule reachable_timers_ok)
  have p: "pending x a = (case timer (objs x a) of None \<Rightarrow> [] | Some h \<Rightarrow> [h])"
    if "timers_ok x" for x
    using that by (simp add: timers_ok_def)
  have l: "length (pending x a) \<le> 1" if "timers_ok x" for x
    using p [OF that] by (simp split: option.splits)
  have "length (pending s' a) \<le> 1" if "step i s = Inr s'" for i s'
    using l [OF ok_step [OF that ok]] .
  then have n: "\<forall>i s'. step i s = Inr s' \<longrightarrow> length (pending s' a) \<le> 1"
    by blast
  have c: "pending (clearTimer a s) a = []"
    using ok by (rule pending_clearTimer_any)
  have st: "pending (startTimer a n cb s) a = [nextHandle s]"
    by (simp add: pending_startTimer c)
  show ?thesis
    by (intro conjI l [OF ok] p [OF ok] c st nextHandle_fresh [OF ok] n)
qed

theorem one_timer_per_lobby_witness:
  "reachable in_voting \<and> pending in_voting 0 = [3]
   \<and> pending (startTimer 0 20 VoteTimeout in_voting) 0 = [4]
   \<and> (\<exists>s'. step (Fire 3) in_voting = Inr s' \<and> length (pending s' 0) \<le> 1)"
proof -
  note t = one_timer_per_lobby [OF reachable_in_voting, of 0 20 VoteTimeout]
  have f: "step (Fire 3) in_voting = Inr (tallyVotes 0 (clearTimer 0 (in_voting\<lparr>outbox := []\<rparr>)))"
    by (simp add: step_def fire_def in_voting_def clearTimer_def upd_def)
  have "pending in_voting 0 = [3]"
    using t by (simp add: in_voting_def)
  moreover have "pending (startTimer 0 20 VoteTimeout in_voting) 0 = [4]"
    using t by (simp add: in_voting_def)
  moreover have "length (pending (tallyVotes 0 (clearTimer 0 (in_voting\<lparr>outbox := []\<rparr>))) 0) \<le> 1"
    using t f by simp
  ultimately show ?thesis
    using reachable_in_voting f by simp
qed

section \<open>The end of the voting phase\<close>

subsection \<open>What does not tally\<close>

lemma phase_clearTimer [simp]: "phase (objs (clearTimer b s) a) = phase (objs s a)"
  by (simp add: objs_clearTimer split: option.splits)

lemma phase_startTimer [simp]: "phase (objs (startTimer b n cb s) a) = phase (objs s a)"
  by (simp add: objs_startTimer)

lemma objs_sendRevealAnswer [simp]: "objs (sendRevealAnswer a s) = objs s"
  by (simp add: sendRevealAnswer_def Let_def)

lemma objs_broadcastLobbyState [simp]: "objs (broadcastLobbyState a s) = objs s"
  by (simp add: broadcastLobbyState_def)

lemma nr_startQuestionPhase:
  "startQuestionPhase b s = Inr s' \<Longrightarrow> phase (objs s' a) = Results \<Longrightarrow> phase (objs s a) = Results"
  by (auto simp: startQuestionPhase_def Let_def split: option.splits if_splits)

lemma nr_startAnswerPhase:
  "startAnswerPhase b s = Inr s' \<Longrightarrow> phase (objs s' a) = Results \<Longrightarrow> phase (objs s a) = Results"
  by (auto simp: startAnswerPhase_def Let_def split: option.splits if_splits)

lemma nr_startRevealPhase:
  "startRevealPhase b s = Inr s' \<Longrightarrow> phase (objs s' a) = Results \<Longrightarrow> phase (objs s a) = Results"
  by (auto simp: startRevealPhase_def Let_def split: option.splits if_splits)

lemma nr_startGuessingPhase:
  "startGuessingPhase b s = Inr s' \<Longrightarrow> phase (objs s' a) = Results \<Longrightarrow> phase (objs s a) = Results"
  by (auto simp: startGuessingPhase_def Let_def split: option.splits if_splits)

lemma nr_startVotingPhase:
  "startVotingPhase b s = Inr s' \<Longrightarrow> phase (objs s' a) = Results \<Longrightarrow> phase (objs s a) = Results"
  by (auto simp: startVotingPhase_def Let_def split: option.splits if_splits)

lemma nr_scoreGuesses:
  "scoreGuesses b s = Inr s' \<Longrightarrow> phase (objs s' a) = Results \<Longrightarrow> phase (objs s a) = Results"
  by (auto simp: scoreGuesses_def Let_def split: sum.splits option.splits if_splits
      dest!: nr_startVotingPhase [where a = a])

lemma nr_nextTurn:
  "nextTurn b s = Inr s' \<Longrightarrow> phase (objs s' a) = Results \<Longrightarrow> phase (objs s a) = Results"
  by (auto simp: nextTurn_def Let_def split: if_splits dest!: nr_startQuestionPhase [where a = a])

lemma nr_startGame:
  "startGame b s = Inr s' \<Longrightarrow> phase (objs s' a) = Results \<Longrightarrow> phase (objs s a) = Results"
  by (auto simp: startGame_def Let_def split: prod.splits if_splits
      dest!: nr_startQuestionPhase [where a = a])

lemma phase_award [simp]: "phase (award w l) = phase l"
  by (simp add: award_def split: option.splits)

lemma objs_tallyVotes_other: "a \<noteq> b \<Longrightarrow> objs (tallyVotes b s) a = objs s a"
  by (simp add: tallyVotes_def Let_def objs_showResults)

lemma phase_tallyVotes: "phase (objs (tallyVotes a s) a) = Results"
  by (simp add: tallyVotes_def Let_def objs_showResults)

lemma nr_callback:
  "callback cb b s = Inr s' \<Longrightarrow> a \<noteq> b \<Longrightarrow> phase (objs s' a) = Results \<Longrightarrow>
     phase (objs s a) = Results"
  by (cases cb)
    (auto simp: objs_tallyVotes_other
      dest!: nr_startAnswerPhase [where a = a] nr_startRevealPhase [where a = a]
        nr_scoreGuesses [where a = a])

lemma nr_createLobby:
  "createLobby i nm s = Inr (b, s') \<Longrightarrow> phase (objs s' a) = Results \<Longrightarrow> phase (objs s a) = Results"
  by (auto simp: createLobby_def new_lobby_def split: option.splits if_splits)

lemma nr_on_create_lobby:
  "on_create_lobby ws m s = Inr s' \<Longrightarrow> phase (objs s' a) = Results \<Longrightarrow> phase (objs s a) = Results"
  by (auto simp: on_create_lobby_def generateId_def Let_def split: sum.splits
      dest!: nr_createLobby [where a = a])

lemma nr_on_join_lobby:
  "on_join_lobby ws m s = Inr s' \<Longrightarrow> phase (objs s' a) = Results \<Longrightarrow> phase (objs s a) = Results"
  by (auto simp: on_join_lobby_def generateId_def Let_def
      split: sum.splits option.splits if_splits)

lemma nr_on_start_game:
  "on_start_game ws s = Inr s' \<Longrightarrow> phase (objs s' a) = Results \<Longrightarrow> phase (objs s a) = Results"
  by (auto simp: on_start_game_def split: option.splits if_splits dest!: nr_startGame [where a = a])

lemma nr_on_submit_question:
  "on_submit_question ws m s = Inr s' \<Longrightarrow> phase (objs s' a) = Results \<Longrightarrow> phase (objs s a) = Results"
  by (auto simp: on_submit_question_def split: option.splits if_splits sum.splits
      dest!: nr_startAnswerPhase [where a = a])

lemma nr_on_submit_answer:
  "on_submit_answer ws m s = Inr s' \<Longrightarrow> phase (objs s' a) = Results \<Longrightarrow> phase (objs s a) = Results"
  by (auto simp: on_submit_answer_def Let_def split: option.splits if_splits sum.splits
      dest!: nr_startRevealPhase [where a = a])

lemma nr_on_next_reveal:
  "on_next_reveal ws s = Inr s' \<Longrightarrow> phase (objs s' a) = Results \<Longrightarrow> phase (objs s a) = Results"
  by (auto simp: on_next_reveal_def Let_def split: option.splits if_splits sum.splits
      dest!: nr_startGuessingPhase [where a = a])

lemma nr_on_submit_guesses:
  "on_submit_guesses ws m s = Inr s' \<Longrightarrow> phase (objs s' a) = Results \<Longrightarrow> phase (objs s a) = Results"
  by (auto simp: on_submit_guesses_def Let_def split: option.splits if_splits sum.splits
      dest!: nr_scoreGuesses [where a = a])

lemma nr_on_next_turn:
  "on_next_turn ws s = Inr s' \<Longrightarrow> phase (objs s' a) = Results \<Longrightarrow> phase (objs s a) = Results"
  by (auto simp: on_next_turn_def split: option.splits if_splits dest!: nr_nextTurn [where a = a])

lemma nr_on_play_again:
  "on_play_again ws s = Inr s' \<Longrightarrow> phase (objs s' a) = Results \<Longrightarrow> phase (objs s a) = Results"
  by (auto simp: on_play_again_def split: option.splits if_splits)

lemma nr_handleDisconnect: "phase (objs (handleDisconnect ws s) a) = phase (objs s a)"
  by (auto simp: handleDisconnect_def Let_def split: option.splits)

subsection \<open>The vote handler and the timeout\<close>

lemma map_has_map_set: "map_has (map_set k v m) x = (x = k \<or> map_has m x)"
  by (induction m) (auto simp: map_has_def split: if_splits)

lemma map_has_record_vote:
  "x \<noteq> voter \<Longrightarrow>
     map_has (best (record_vote voter m v)) x = map_has (best v) x
     \<and> map_has (funniest (record_vote voter m v)) x = map_has (funniest v) x"
  by (simp add: record_vote_def Let_def map_has_map_set)

lemma pid_add_score: "map pid (add_score i n ps) = map pid ps"
  by (induction ps) auto

lemma pid_award: "map pid (players (award w l)) = map pid (players l)"
  by (simp add: award_def pid_add_score split: option.splits)

lemma votes_award [simp]: "votes (award w l) = votes l"
  by (simp add: award_def split: option.splits)

lemma allVoted_pids:
  "allVoted l =
     list_all (\<lambda>x. map_has (best (votes l)) x \<and> map_has (funniest (votes l)) x) (map pid (players l))"
  by (simp add: allVoted_def list_all_iff)

lemma allVoted_cong:
  "votes l' = votes l \<Longrightarrow> map pid (players l') = map pid (players l) \<Longrightarrow> allVoted l' = allVoted l"
  by (simp add: allVoted_pids)

lemma allVoted_tallyVotes: "allVoted (objs (tallyVotes a s) a) = allVoted (objs s a)"
  by (rule allVoted_cong) (simp_all add: tallyVotes_def Let_def objs_showResults pid_award)

lemma allVoted_clearTimer: "allVoted (objs (clearTimer b s) a) = allVoted (objs s a)"
  by (rule allVoted_cong) (simp_all add: objs_clearTimer split: option.splits)

lemma on_vote_results:
  assumes "on_vote ws m s = Inr s'" "phase (objs s a) \<noteq> Results" "phase (objs s' a) = Results"
  shows "\<exists>c. map_of (clients s) ws = Some c
     \<and> allVoted ((objs s a)\<lparr>votes := record_vote (cid c) m (votes (objs s a))\<rparr>)
     \<and> allVoted (objs s' a)"
proof -
  from assms obtain c b where c: "map_of (clients s) ws = Some c"
    and b: "map_of (lobbies s) (lobbyCode c) = Some b"
    by (auto simp: on_vote_def split: option.splits)
  define s1 where "s1 = upd b (\<lambda>l. l\<lparr>votes := record_vote (cid c) m (votes l)\<rparr>) s"
  have v: "phase (objs s b) = Voting"
    using assms c b by (auto simp: on_vote_def split: if_splits)
  have s': "s' = (if allVoted (objs s1 b) then tallyVotes b (clearTimer b s1) else s1)"
    using assms(1) c b v by (auto simp: on_vote_def Let_def s1_def)
  have ab: "a = b"
  proof (rule ccontr)
    assume "a \<noteq> b"
    then have "phase (objs s' a) = phase (objs s a)"
      by (simp add: s' s1_def objs_tallyVotes_other)
    with assms(2,3) show False by simp
  qed
  have all: "allVoted (objs s1 b)"
  proof (rule ccontr)
    assume "\<not> allVoted (objs s1 b)"
    then have "phase (objs s' a) = Voting"
      using v by (simp add: s' s1_def ab)
    with assms(3) show False by simp
  qed
  then have "allVoted (objs s' a)"
    by (simp add: s' ab allVoted_tallyVotes allVoted_clearTimer)
  moreover have "allVoted ((objs s a)\<lparr>votes := record_vote (cid c) m (votes (objs s a))\<rparr>)"
    using all by (simp add: s1_def ab)
  ultimately show ?thesis
    using c by simp
qed

lemma handleMessage_results:
  assumes "handleMessage ws d s = Inr s'" "phase (objs s a) \<noteq> Results"
    "phase (objs s' a) = Results"
  shows "\<exists>c m. d = Some m \<and> map_of (clients s) ws = Some c
     \<and> allVoted ((objs s a)\<lparr>votes := record_vote (cid c) m (votes (objs s a))\<rparr>)
     \<and> allVoted (objs s' a)"
proof (cases d)
  case None
  then show ?thesis
    using assms by (simp add: handleMessage_def)
next
  case (Some m)
  have "on_vote ws m s = Inr s'"
    using assms Some unfolding handleMessage_def
    by (auto split: sum.splits if_splits
        dest: nr_on_create_lobby [where a = a] nr_on_join_lobby [where a = a]
          nr_on_start_game [where a = a] nr_on_submit_question [where a = a]
          nr_on_submit_answer [where a = a] nr_on_next_reveal [where a = a]
          nr_on_submit_guesses [where a = a] nr_on_next_turn [where a = a]
          nr_on_play_again [where a = a])
  from on_vote_results [OF this assms(2,3)] Some show ?thesis
    by simp
qed

lemma fire_results:
  assumes "fire h s = Inr s'" "phase (objs s a) \<noteq> Results" "phase (objs s' a) = Results"
  shows "h \<in> set (pending s a)"
proof (cases "find (\<lambda>(h', a, cb). h' = h) (timeouts s)")
  case None
  then show ?thesis
    using assms by (simp add: fire_def)
next
  case (Some t)
  obtain h' b cb where t: "t = (h', b, cb)"
    by (cases t)
  from Some have m: "(h', b, cb) \<in> set (timeouts s)" and h: "h' = h"
    by (auto simp: t find_Some_iff in_set_conv_nth)
  have cbk: "callback cb b
      (upd b (\<lambda>l. l\<lparr>timer := None, timerEnd := None\<rparr>)
         (s\<lparr>timeouts := filter (\<lambda>(h', a', cb'). h' \<noteq> h) (timeouts s)\<rparr>)) = Inr s'"
    using assms(1) Some by (simp add: fire_def t)
  have "a = b"
  proof (rule ccontr)
    assume ne: "a \<noteq> b"
    from nr_callback [OF cbk ne assms(3)] ne have "phase (objs s a) = Results"
      by simp
    with assms(2) show False by simp
  qed
  with m h show ?thesis
    by (force simp: pending_def)
qed

lemma fire_vote_timeout:
  assumes "fire h s = Inr s'" "find (\<lambda>(h', b, cb). h' = h) (timeouts s) = Some (h, a, VoteTimeout)"
  shows "phase (objs s' a) = Results"
  using assms by (auto simp: fire_def phase_tallyVotes)

lemma no_connection:
  "list_all (\<lambda>e. cid (snd e) \<noteq> x) cs \<Longrightarrow> map_of cs ws = Some c \<Longrightarrow> cid c \<noteq> x"
  by (auto simp: list_all_iff dest!: map_of_SomeD)

text \<open>
  Claim C10. When an event takes a lobby from the voting phase to the results, either it is
  the lobby's pending timeout that fired, or it is a message after which every entry of the
  lobby's player list, the guesser and the players whose connection is gone among them, has
  a vote in both categories. So when some id of the player list lacks a vote and no
  connection has that id, only the timeout takes the lobby to the results; and the vote
  timeout does, whatever the votes.
\<close>

theorem voting_ends_by_votes_or_timer:
  assumes "step i s = Inr s'" and "phase (objs s a) = Voting"
  shows "(phase (objs s' a) = Results \<longrightarrow>
            (\<exists>h. i = Fire h \<and> h \<in> set (pending s a))
            \<or> (\<exists>ws m. i = Message ws (Some m) \<and> allVoted (objs s' a)))
    \<and> (x \<in> set (map pid (players (objs s a)))
         \<and> \<not> (map_has (best (votes (objs s a))) x \<and> map_has (funniest (votes (objs s a))) x)
         \<and> list_all (\<lambda>e. cid (snd e) \<noteq> x) (clients s)
         \<and> phase (objs s' a) = Results
       \<longrightarrow> (\<exists>h. i = Fire h \<and> h \<in> set (pending s a)))
    \<and> (\<forall>h. i = Fire h \<and> find (\<lambda>(h', b, cb). h' = h) (timeouts s) = Some (h, a, VoteTimeout)
       \<longrightarrow> phase (objs s' a) = Results)"
proof -
  let ?s = "s\<lparr>outbox := []\<rparr>"
  have hs: "handle i ?s = Inr s'"
    using assms(1) by (simp add: step_def)
  have nv: "phase (objs ?s a) \<noteq> Results"
    using assms(2) by simp
  have pend: "pending ?s a = pending s a"
    by (simp add: pending_def)
  have one: "(\<exists>h. i = Fire h \<and> h \<in> set (pending s a))
      \<or> (\<exists>ws m c. i = Message ws (Some m) \<and> map_of (clients s) ws = Some c
           \<and> allVoted ((objs s a)\<lparr>votes := record_vote (cid c) m (votes (objs s a))\<rparr>)
           \<and> allVoted (objs s' a))"
    if r: "phase (objs s' a) = Results"
  proof (cases i)
    case (Connect ws)
    then show ?thesis using hs r assms(2) by auto
  next
    case (Message ws d)
    then have "handleMessage ws d ?s = Inr s'"
      using hs by simp
    from handleMessage_results [OF this nv r] Message show ?thesis
      by auto
  next
    case (Disconnect ws)
    then show ?thesis using hs r assms(2) by (auto simp: nr_handleDisconnect)
  next
    case (Fire h)
    then have "fire h ?s = Inr s'"
      using hs by simp
    from fire_results [OF this nv r] Fire pend show ?thesis
      by simp
  next
    case (Tick n)
    then show ?thesis using hs r assms(2) by auto
  qed
  have two: "\<exists>h. i = Fire h \<and> h \<in> set (pending s a)"
    if x: "x \<in> set (map pid (players (objs s a)))"
      and u: "\<not> (map_has (best (votes (objs s a))) x \<and> map_has (funniest (votes (objs s a))) x)"
      and n: "list_all (\<lambda>e. cid (snd e) \<noteq> x) (clients s)"
      and r: "phase (objs s' a) = Results"
  proof (rule ccontr)
    assume "\<not> (\<exists>h. i = Fire h \<and> h \<in> set (pending s a))"
    with one [OF r] obtain ws m c where c: "map_of (clients s) ws = Some c"
      and av: "allVoted ((objs s a)\<lparr>votes := record_vote (cid c) m (votes (objs s a))\<rparr>)"
      by blast
    have "x \<noteq> cid c"
      using no_connection [OF n c] by simp
    from map_has_record_vote [OF this, of m "votes (objs s a)"] u
    have "\<not> (map_has (best (record_vote (cid c) m (votes (objs s a)))) x
        \<and> map_has (funniest (record_vote (cid c) m (votes (objs s a)))) x)"
      by simp
    with av x show False
      by (auto simp: allVoted_pids list_all_iff)
  qed
  have three: "phase (objs s' a) = Results"
    if "i = Fire h" "find (\<lambda>(h', b, cb). h' = h) (timeouts s) = Some (h, a, VoteTimeout)" for h
  proof -
    have "fire h ?s = Inr s'"
      using hs that by simp
    then show ?thesis
      using that(2) by (intro fire_vote_timeout [of h ?s]) simp_all
  qed
  show ?thesis
    using one two three by blast
qed

lemma step_cat_gone: "step (Disconnect 3) in_voting = Inr cat_gone"
  by (simp add: cat_gone_def run_eval fun_upd_eq_cancel)

lemma run_five_votes: "run five_votes in_voting = Inr one_vote_short"
  by (simp add: five_votes_def vote_for_def one_vote_short_def run_eval fun_upd_eq_cancel)

text \<open>
  In the sample game: once Cat's connection is closed, Ann's vote leaves the lobby in the
  voting phase and the timeout ends it; with all three connected, the sixth vote ends it.
\<close>

theorem voting_ends_by_votes_or_timer_witness:
  "\<exists>v r f.
     step (Disconnect 3) in_voting = Inr cat_gone
     \<and> phase (objs cat_gone 0) = Voting
     \<and> cat \<in> set (map pid (players (objs cat_gone 0)))
     \<and> \<not> (map_has (best (votes (objs cat_gone 0))) cat
           \<and> map_has (funniest (votes (objs cat_gone 0))) cat)
     \<and> list_all (\<lambda>e. cid (snd e) \<noteq> cat) (clients cat_gone)
     \<and> step (Message 1 (vote_for ''best'' rum)) cat_gone = Inr v
     \<and> phase (objs v 0) = Voting
     \<and> step (Fire 3) cat_gone = Inr r
     \<and> 3 \<in> set (pending cat_gone 0)
     \<and> phase (objs r 0) = Results
     \<and> run five_votes in_voting = Inr one_vote_short
     \<and> phase (objs one_vote_short 0) = Voting
     \<and> step (Message 3 (vote_for ''funniest'' tea)) one_vote_short = Inr f
     \<and> phase (objs f 0) = Results
     \<and> allVoted (objs f 0)"
proof -
  note vote_eval = step_def handleMessage_def on_vote_def record_vote_def allVoted_def
    vote_for_def sample_defs js_eval upd_def map_delete_def
  define v where "v = upd 0 (\<lambda>l. l\<lparr>votes := (votes l)\<lparr>best := [(ann, JStr (aid rum))]\<rparr>\<rparr>)
      (cat_gone\<lparr>outbox := []\<rparr>)"
  have sv: "step (Message 1 (vote_for ''best'' rum)) cat_gone = Inr v"
    by (simp add: v_def cat_gone_def vote_eval)
  define r where "r = tallyVotes 0 (clearTimer 0 (cat_gone\<lparr>outbox := []\<rparr>))"
  have sr: "step (Fire 3) cat_gone = Inr r"
    by (simp add: r_def step_def fire_def cat_gone_def sample_defs clearTimer_def upd_def)
  have pd: "phase (objs cat_gone 0) = Voting"
    and cd: "cat \<in> set (map pid (players (objs cat_gone 0)))"
    and ud: "\<not> (map_has (best (votes (objs cat_gone 0))) cat
        \<and> map_has (funniest (votes (objs cat_gone 0))) cat)"
    and nd: "list_all (\<lambda>e. cid (snd e) \<noteq> cat) (clients cat_gone)"
    and fd: "find (\<lambda>(h', b, cb). h' = 3) (timeouts cat_gone) = Some (3, 0, VoteTimeout)"
    by (simp_all add: cat_gone_def map_delete_def sample_defs js_eval)
  have pv: "phase (objs v 0) = Voting"
    by (simp add: v_def cat_gone_def sample_defs)
  note t = voting_ends_by_votes_or_timer [OF sr pd, of cat]
  have pr: "phase (objs r 0) = Results"
    using t fd by simp
  have p3: "3 \<in> set (pending cat_gone 0)"
    using t cd ud nd pr by simp
  define f where "f = tallyVotes 0 (clearTimer 0
      (upd 0 (\<lambda>l. l\<lparr>votes := (votes l)\<lparr>funniest := funniest (votes l) @ [(cat, JStr (aid tea))]\<rparr>\<rparr>)
         (one_vote_short\<lparr>outbox := []\<rparr>)))"
  have sf: "step (Message 3 (vote_for ''funniest'' tea)) one_vote_short = Inr f"
    by (simp add: f_def one_vote_short_def vote_eval)
  have pe: "phase (objs one_vote_short 0) = Voting"
    by (simp add: one_vote_short_def sample_defs)
  have pf: "phase (objs f 0) = Results"
    by (simp add: f_def phase_tallyVotes)
  have af: "allVoted (objs f 0)"
    using voting_ends_by_votes_or_timer [OF sf pe, of cat] pf by simp
  show ?thesis
    by (intro exI [of _ v] exI [of _ r] exI [of _ f] conjI
        step_cat_gone pd cd ud nd sv pv sr p3 pr run_five_votes pe sf pf af)
qed

end
